theory Spec2Isabelle
  imports Main
begin

section \<open>Data model of the asset service\<close>

text \<open>
  The embedding follows \<^verbatim>\<open>server/src/domain/asset/asset.service.ts\<close>.
  JavaScript numbers that hold byte sizes, counts and thresholds are modelled as
  unbounded integers (the values stay far below \<open>2^53\<close>, where the two agree).
  Strings are \<open>char list\<close>. A property that may be absent (\<open>undefined\<close> or
  \<open>null\<close>) is an \<open>option\<close>.
\<close>

text \<open>
  \<open>ExifEntity\<close> and \<open>AssetEntity\<close> are declared outside the file; only the
  fields the service reads are kept. The byte size is a file size: a natural number
  when it is known.
\<close>

record ExifEntity =
  fileSizeInByte :: "nat option"

record AssetEntity =
  id' :: string
  originalPath :: string
  originalFileName :: string
  livePhotoVideoId :: "string option"
  exifInfo :: "ExifEntity option"

record AuthUserDto =
  auth_id :: string

record DownloadDto =
  dto_assetIds :: "string list option"
  albumId :: "string option"
  userId :: "string option"
  archiveSize :: "int option"

record DownloadArchiveInfo =
  size' :: int
  assetIds :: "string list"

record DownloadResponseDto =
  totalSize :: int
  archives :: "DownloadArchiveInfo list"

datatype Permission = ASSET_DOWNLOAD | ALBUM_DOWNLOAD | LIBRARY_DOWNLOAD

text \<open>
  \<open>BadRequestException\<close> is what the service throws itself (the spec calls it
  InvalidRequest); \<open>AccessDenied\<close> stands for the failure of
  \<open>requirePermission\<close>.
\<close>

datatype error = BadRequestException string | AccessDenied

text \<open>
  Every call to a collaborator is recorded as an event, in the order in which the
  service makes the calls.
\<close>

datatype event =
    RequirePermission string Permission "string list"
  | GetByIds "string list"
  | GetByAlbumId nat nat string
  | GetByUserId nat nat string
  | GetByDate string int

text \<open>
  The collaborators of the service (access gate and asset repository) are parameters.

  Modelled from the spec: \<open>usePagination\<close> (domain.util) is not part of the
  file. The spec describes what it yields over \<open>getByAlbumId\<close> and
  \<open>getByUserId\<close> as a lazy, finite, forward-only sequence of pages fetched with
  a fixed page size; \<open>albumPages\<close> and \<open>userPages\<close> give that sequence of pages
  for an album and for an owner.
\<close>

record world =
  hasPermission :: "string \<Rightarrow> Permission \<Rightarrow> string list \<Rightarrow> bool"
  getByIds :: "string list \<Rightarrow> AssetEntity list"
  albumPages :: "string \<Rightarrow> AssetEntity list list"
  userPages :: "string \<Rightarrow> AssetEntity list list"
  getByDate :: "string \<Rightarrow> int \<Rightarrow> AssetEntity list"

section \<open>getDownloadAssets\<close>

text \<open>JavaScript truthiness of an optional string: present and not empty.\<close>

definition truthy :: "string option \<Rightarrow> bool" where
  "truthy x = (case x of None \<Rightarrow> False | Some s \<Rightarrow> s \<noteq> [])"

definition PAGINATION_SIZE :: nat where
  "PAGINATION_SIZE = 2500"

text \<open>
  The async generator that \<open>getDownloadAssets\<close> returns: either the generator
  that yields the assets already fetched by id, or a pagination over an album or
  over an owner's library, which fetches nothing before it is iterated.
\<close>

datatype page_source =
    Yield "AssetEntity list"
  | AlbumPagination string
  | UserPagination string

definition getDownloadAssets ::
  "world \<Rightarrow> AuthUserDto \<Rightarrow> DownloadDto \<Rightarrow> event list \<times> (error + page_source)" where
  "getDownloadAssets w authUser dto =
     (case dto_assetIds dto of
        Some ids \<Rightarrow>
          if hasPermission w (auth_id authUser) ASSET_DOWNLOAD ids
          then ([RequirePermission (auth_id authUser) ASSET_DOWNLOAD ids, GetByIds ids],
                Inr (Yield (getByIds w ids)))
          else ([RequirePermission (auth_id authUser) ASSET_DOWNLOAD ids], Inl AccessDenied)
      | None \<Rightarrow>
          if truthy (albumId dto) then
            (let a = the (albumId dto) in
             if hasPermission w (auth_id authUser) ALBUM_DOWNLOAD [a]
             then ([RequirePermission (auth_id authUser) ALBUM_DOWNLOAD [a]],
                   Inr (AlbumPagination a))
             else ([RequirePermission (auth_id authUser) ALBUM_DOWNLOAD [a]], Inl AccessDenied))
          else if truthy (userId dto) then
            (let u = the (userId dto) in
             if hasPermission w (auth_id authUser) LIBRARY_DOWNLOAD [u]
             then ([RequirePermission (auth_id authUser) LIBRARY_DOWNLOAD [u]],
                   Inr (UserPagination u))
             else ([RequirePermission (auth_id authUser) LIBRARY_DOWNLOAD [u]], Inl AccessDenied))
          else ([], Inl (BadRequestException ''assetIds, albumId, or userId is required'')))"

text \<open>
  Iterating the generator: each page comes with the repository calls its production
  makes. Page \<open>k\<close> of a pagination is fetched with \<open>take = 2500\<close> and
  \<open>skip = 2500 * k\<close>.
\<close>

fun paged :: "(nat \<Rightarrow> event) \<Rightarrow> nat \<Rightarrow> AssetEntity list list \<Rightarrow> (event list \<times> AssetEntity list) list" where
  "paged ev k [] = []"
| "paged ev k (p # ps) = ([ev k], p) # paged ev (Suc k) ps"

fun produce :: "world \<Rightarrow> page_source \<Rightarrow> (event list \<times> AssetEntity list) list" where
  "produce w (Yield assets) = [([], assets)]"
| "produce w (AlbumPagination a) =
     paged (\<lambda>k. GetByAlbumId PAGINATION_SIZE (PAGINATION_SIZE * k) a) 0 (albumPages w a)"
| "produce w (UserPagination u) =
     paged (\<lambda>k. GetByUserId PAGINATION_SIZE (PAGINATION_SIZE * k) u) 0 (userPages w u)"

section \<open>getDownloadInfo\<close>

text \<open>
  The loop mutates the object bound to \<open>archive\<close> and pushes that same object
  on \<open>archives\<close>, so objects live in a store: \<open>heap\<close> lists the
  \<open>DownloadArchiveInfo\<close> objects allocated so far, an object's address is its
  index, and the two local variables hold addresses.
\<close>

record plan_state =
  heap :: "DownloadArchiveInfo list"
  archives_var :: "nat list"
  archive_var :: nat
  trace :: "event list"

definition fresh :: DownloadArchiveInfo where
  "fresh = \<lparr>size' = 0, assetIds = []\<rparr>"

definition init_state :: "event list \<Rightarrow> plan_state" where
  "init_state evs = \<lparr>heap = [fresh], archives_var = [], archive_var = 0, trace = evs\<rparr>"

text \<open>\<open>Number(asset.exifInfo?.fileSizeInByte || 0)\<close>\<close>

definition file_size :: "AssetEntity \<Rightarrow> int" where
  "file_size asset =
     (case exifInfo asset of
        None \<Rightarrow> 0
      | Some e \<Rightarrow> (case fileSizeInByte e of None \<Rightarrow> 0 | Some n \<Rightarrow> int n))"

text \<open>The body of the inner loop, for one asset.\<close>

definition add_asset :: "int \<Rightarrow> AssetEntity \<Rightarrow> plan_state \<Rightarrow> plan_state" where
  "add_asset targetSize asset s =
     (let r = archive_var s;
          obj = heap s ! r;
          obj' = \<lparr>size' = size' obj + file_size asset, assetIds = assetIds obj @ [id' asset]\<rparr>;
          s1 = s\<lparr>heap := (heap s)[r := obj']\<rparr>
      in if size' obj' > targetSize
         then s1\<lparr>archives_var := archives_var s1 @ [r],
                 heap := heap s1 @ [fresh],
                 archive_var := length (heap s1)\<rparr>
         else s1)"

fun pack_assets :: "int \<Rightarrow> AssetEntity list \<Rightarrow> plan_state \<Rightarrow> plan_state" where
  "pack_assets targetSize [] s = s"
| "pack_assets targetSize (asset # assets) s =
     pack_assets targetSize assets (add_asset targetSize asset s)"

definition motionIds_of :: "AssetEntity list \<Rightarrow> string list" where
  "motionIds_of assets = map the (filter truthy (map livePhotoVideoId assets))"

text \<open>The page after the motion parts of its live photos have been pushed on it.\<close>

definition with_motion :: "world \<Rightarrow> AssetEntity list \<Rightarrow> AssetEntity list" where
  "with_motion w assets =
     (if motionIds_of assets \<noteq> [] then assets @ getByIds w (motionIds_of assets) else assets)"

text \<open>The body of the \<open>for await\<close> loop, for one page.\<close>

definition process_page :: "world \<Rightarrow> int \<Rightarrow> event list \<times> AssetEntity list \<Rightarrow> plan_state \<Rightarrow> plan_state" where
  "process_page w targetSize pg s =
     (let assets = snd pg;
          s0 = s\<lparr>trace := trace s @ fst pg
                   @ (if motionIds_of assets \<noteq> [] then [GetByIds (motionIds_of assets)] else [])\<rparr>;
          s1 = pack_assets targetSize (with_motion w assets) s0
      in if assetIds (heap s1 ! archive_var s1) \<noteq> []
         then s1\<lparr>archives_var := archives_var s1 @ [archive_var s1]\<rparr>
         else s1)"

fun for_await :: "world \<Rightarrow> int \<Rightarrow> (event list \<times> AssetEntity list) list \<Rightarrow> plan_state \<Rightarrow> plan_state" where
  "for_await w targetSize [] s = s"
| "for_await w targetSize (pg # pgs) s = for_await w targetSize pgs (process_page w targetSize pg s)"

text \<open>
  Modelled from the spec: \<open>HumanReadableSize.GiB\<close> (domain.util) is not part of the
  file; the spec gives the default threshold as 4 GiB.
\<close>

definition GiB :: int where
  "GiB = 1024 * 1024 * 1024"

text \<open>\<open>dto.archiveSize || HumanReadableSize.GiB * 4\<close>: an absent size and the size 0 are falsy.\<close>

definition targetSize_of :: "DownloadDto \<Rightarrow> int" where
  "targetSize_of dto =
     (case archiveSize dto of None \<Rightarrow> GiB * 4 | Some n \<Rightarrow> if n = 0 then GiB * 4 else n)"

text \<open>The response reads every pushed reference in the final store.\<close>

definition response :: "plan_state \<Rightarrow> DownloadResponseDto" where
  "response s =
     (let as = map (\<lambda>r. heap s ! r) (archives_var s)
      in \<lparr>totalSize = foldl (\<lambda>total item. total + size' item) 0 as, archives = as\<rparr>)"

definition getDownloadInfo ::
  "world \<Rightarrow> AuthUserDto \<Rightarrow> DownloadDto \<Rightarrow> event list \<times> (error + DownloadResponseDto)" where
  "getDownloadInfo w authUser dto =
     (let targetSize = targetSize_of dto in
      case getDownloadAssets w authUser dto of
        (evs, Inl e) \<Rightarrow> (evs, Inl e)
      | (evs, Inr src) \<Rightarrow>
          (let s = for_await w targetSize (produce w src) (init_state evs)
           in (trace s, Inr (response s))))"

section \<open>Numbers in template literals\<close>

text \<open>A natural number written in decimal, as a template literal renders it.\<close>

definition digit_char :: "nat \<Rightarrow> char" where
  "digit_char d = ''0123456789'' ! d"

function string_of_nat :: "nat \<Rightarrow> string" where
  "string_of_nat n =
     (if n < 10 then [digit_char n] else string_of_nat (n div 10) @ [digit_char (n mod 10)])"
  by pat_completeness auto
termination
  by (relation "measure (\<lambda>n. n)") auto

declare string_of_nat.simps [simp del]

definition string_of_int :: "int \<Rightarrow> string" where
  "string_of_int i = (if i < 0 then CHR ''-'' # string_of_nat (nat (- i)) else string_of_nat (nat i))"

section \<open>getMemoryLane\<close>

record MemoryLaneDto =
  timestamp :: int
  years :: int

record 'r MemoryLaneResponseDto =
  title :: string
  assets :: "'r list"

text \<open>
  \<open>minusYears\<close> stands for luxon's \<open>target.minus({ years })\<close> and \<open>mapAsset\<close> for the
  response mapper; both are declared outside the file and are parameters. A request is
  the repository call it makes together with the entry it resolves to.
\<close>

definition onRequest ::
  "world \<Rightarrow> (int \<Rightarrow> int \<Rightarrow> int) \<Rightarrow> (AssetEntity \<Rightarrow> 'r) \<Rightarrow> AuthUserDto \<Rightarrow> int \<Rightarrow> int
     \<Rightarrow> event \<times> 'r MemoryLaneResponseDto" where
  "onRequest w minusYears mapAsset authUser target yearsAgo =
     (GetByDate (auth_id authUser) (minusYears target yearsAgo),
      \<lparr>title = string_of_int yearsAgo @ '' year'' @ (if yearsAgo > 1 then ''s'' else [])
                 @ '' since...'',
       assets = map mapAsset (getByDate w (auth_id authUser) (minusYears target yearsAgo))\<rparr>)"

text \<open>\<open>for (let i = 1; i <= dto.years; i++) requests.push(onRequest(i))\<close>\<close>

function requests_loop :: "(int \<Rightarrow> 'a) \<Rightarrow> int \<Rightarrow> int \<Rightarrow> 'a list \<Rightarrow> 'a list" where
  "requests_loop f n i requests =
     (if i \<le> n then requests_loop f n (i + 1) (requests @ [f i]) else requests)"
  by pat_completeness auto
termination
  by (relation "measure (\<lambda>(f, n, i, requests). nat (n + 1 - i))") auto

declare requests_loop.simps [simp del]

text \<open>
  \<open>Promise.all\<close> resolves to the results in the order of the requests; the
  function itself throws nothing.
\<close>

definition getMemoryLane ::
  "world \<Rightarrow> (int \<Rightarrow> int \<Rightarrow> int) \<Rightarrow> (AssetEntity \<Rightarrow> 'r) \<Rightarrow> AuthUserDto \<Rightarrow> MemoryLaneDto
     \<Rightarrow> event list \<times> (error + 'r MemoryLaneResponseDto list)" where
  "getMemoryLane w minusYears mapAsset authUser dto =
     (let target = timestamp dto;
          requests = requests_loop (onRequest w minusYears mapAsset authUser target) (years dto) 1 []
      in (map fst requests,
          Inr (filter (\<lambda>result. length (assets result) > 0) (map snd requests))))"

section \<open>downloadArchive\<close>

text \<open>
  \<open>paths\<close> is the counting map of the function; \<open>zip\<close> lists the calls
  \<open>zip.addFile(originalPath, filename)\<close> in order. \<open>extname\<close> (node's path
  module) is a parameter. The lookup \<open>paths[filename]\<close> of a name never stored is
  taken to be \<open>undefined\<close>: base names that are inherited properties of a JavaScript
  object (\<open>constructor\<close>, \<open>toString\<close> and the like, none of which has an
  extension) are outside the model.
\<close>

definition add_file ::
  "(string \<Rightarrow> string) \<Rightarrow> AssetEntity \<Rightarrow> (string \<rightharpoonup> nat) \<times> (string \<times> string) list
     \<Rightarrow> (string \<rightharpoonup> nat) \<times> (string \<times> string) list" where
  "add_file extname asset st =
     (let paths = fst st;
          ext = extname (originalPath asset);
          filename = originalFileName asset @ ext;
          count = (case paths filename of None \<Rightarrow> 0 | Some c \<Rightarrow> c);
          paths' = paths(filename \<mapsto> count + 1);
          filename' = (if count \<noteq> 0
                       then originalFileName asset @ ''+'' @ string_of_nat count @ ext
                       else filename)
      in (paths', snd st @ [(originalPath asset, filename')]))"

fun add_files ::
  "(string \<Rightarrow> string) \<Rightarrow> AssetEntity list \<Rightarrow> (string \<rightharpoonup> nat) \<times> (string \<times> string) list
     \<Rightarrow> (string \<rightharpoonup> nat) \<times> (string \<times> string) list" where
  "add_files extname [] st = st"
| "add_files extname (asset # rest) st = add_files extname rest (add_file extname asset st)"

text \<open>The result is the list of entries handed to the archive writer before \<open>finalize\<close>.\<close>

definition downloadArchive ::
  "world \<Rightarrow> (string \<Rightarrow> string) \<Rightarrow> AuthUserDto \<Rightarrow> string list
     \<Rightarrow> event list \<times> (error + (string \<times> string) list)" where
  "downloadArchive w extname authUser ids =
     (if hasPermission w (auth_id authUser) ASSET_DOWNLOAD ids
      then ([RequirePermission (auth_id authUser) ASSET_DOWNLOAD ids, GetByIds ids],
            Inr (snd (add_files extname (getByIds w ids) (Map.empty, []))))
      else ([RequirePermission (auth_id authUser) ASSET_DOWNLOAD ids], Inl AccessDenied))"

text \<open>The base name of an asset's entry: \<open>`${originalFileName}${ext}`\<close>.\<close>

definition base_name :: "(string \<Rightarrow> string) \<Rightarrow> AssetEntity \<Rightarrow> string" where
  "base_name extname asset = originalFileName asset @ extname (originalPath asset)"

text \<open>
  A concrete extension function for worked inputs: the part of a path from its last
  dot on, empty when the path has no dot.
\<close>

definition dot_suffix :: "string \<Rightarrow> string" where
  "dot_suffix p =
     (if CHR ''.'' \<in> set p then CHR ''.'' # rev (takeWhile (\<lambda>c. c \<noteq> CHR ''.'') (rev p)) else [])"

section \<open>Notions used to state and prove the properties\<close>

text \<open>
  The inner loop read without the store: \<open>put\<close> is one accumulation step, and
  \<open>pack_pure\<close> returns the archives sealed by the size test together with the
  accumulator left open. It describes \<open>pack_assets\<close> as long as the open object has
  not been pushed before.
\<close>

definition put :: "DownloadArchiveInfo \<Rightarrow> AssetEntity \<Rightarrow> DownloadArchiveInfo" where
  "put cur asset = \<lparr>size' = size' cur + file_size asset, assetIds = assetIds cur @ [id' asset]\<rparr>"

fun pack_pure ::
  "int \<Rightarrow> DownloadArchiveInfo \<Rightarrow> AssetEntity list \<Rightarrow> DownloadArchiveInfo list \<times> DownloadArchiveInfo" where
  "pack_pure T cur [] = ([], cur)"
| "pack_pure T cur (a # as) =
     (if size' (put cur a) > T
      then (put cur a # fst (pack_pure T fresh as), snd (pack_pure T fresh as))
      else pack_pure T (put cur a) as)"

text \<open>The pushed references read in the current store.\<close>

definition deref :: "plan_state \<Rightarrow> DownloadArchiveInfo list" where
  "deref s = map (\<lambda>r. heap s ! r) (archives_var s)"

text \<open>The open object is allocated and has not been pushed.\<close>

definition unaliased :: "plan_state \<Rightarrow> bool" where
  "unaliased s \<longleftrightarrow> archive_var s < length (heap s) \<and> archive_var s \<notin> set (archives_var s)
     \<and> (\<forall>r \<in> set (archives_var s). r < length (heap s))"

text \<open>Every pushed reference is allocated and points to an object that holds an id.\<close>

definition pushed_nonempty :: "plan_state \<Rightarrow> bool" where
  "pushed_nonempty s \<longleftrightarrow> archive_var s < length (heap s)
     \<and> (\<forall>r \<in> set (archives_var s). r < length (heap s) \<and> assetIds (heap s ! r) \<noteq> [])"

text \<open>The archive that holds one asset alone.\<close>

definition single :: "AssetEntity \<Rightarrow> DownloadArchiveInfo" where
  "single a = \<lparr>size' = file_size a, assetIds = [id' a]\<rparr>"

text \<open>The collaborator calls made for one page: its fetch, then the motion lookup.\<close>

definition page_events :: "event list \<times> AssetEntity list \<Rightarrow> event list" where
  "page_events pg =
     fst pg @ (if motionIds_of (snd pg) \<noteq> [] then [GetByIds (motionIds_of (snd pg))] else [])"

definition is_access_check :: "event \<Rightarrow> bool" where
  "is_access_check e = (case e of RequirePermission u p t \<Rightarrow> True | _ \<Rightarrow> False)"

text \<open>
  The outcome \<open>R\<close> of a call starts with the access check \<open>p\<close> on \<open>t\<close>, makes no
  other access check, and stops there with \<open>AccessDenied\<close> when the gate rejects.
\<close>

definition checked_once_first ::
  "world \<Rightarrow> string \<Rightarrow> Permission \<Rightarrow> string list \<Rightarrow> event list \<times> (error + DownloadResponseDto) \<Rightarrow> bool" where
  "checked_once_first w uid p t R =
     (case fst R of
        [] \<Rightarrow> False
      | e # rest \<Rightarrow> e = RequirePermission uid p t \<and> filter is_access_check rest = []
          \<and> (\<not> hasPermission w uid p t \<longrightarrow> rest = [] \<and> snd R = Inl AccessDenied))"

text \<open>
  The memory lane entry as the spec words it: the title is \<open>1 year since...\<close> for one
  year back and \<open><k> years since...\<close> for \<open>k > 1\<close>.
\<close>

definition spec_entry ::
  "world \<Rightarrow> (int \<Rightarrow> int \<Rightarrow> int) \<Rightarrow> (AssetEntity \<Rightarrow> 'r) \<Rightarrow> AuthUserDto \<Rightarrow> int \<Rightarrow> int
     \<Rightarrow> 'r MemoryLaneResponseDto" where
  "spec_entry w minusYears mapAsset authUser target k =
     \<lparr>title = (if k = 1 then ''1 year since...'' else string_of_nat (nat k) @ '' years since...''),
      assets = map mapAsset (getByDate w (auth_id authUser) (minusYears target k))\<rparr>"

text \<open>
  The entry name as the spec words it: the base name when it has not occurred among the
  earlier assets, and the display name, \<open>+k\<close> and the extension when it has occurred
  \<open>k\<close> times.
\<close>

definition spec_entry_name :: "(string \<Rightarrow> string) \<Rightarrow> AssetEntity list \<Rightarrow> nat \<Rightarrow> string" where
  "spec_entry_name extname as i =
     (let a = as ! i;
          k = count_list (map (base_name extname) (take i as)) (base_name extname a)
      in if k = 0 then originalFileName a @ extname (originalPath a)
         else originalFileName a @ ''+'' @ string_of_nat k @ extname (originalPath a))"

text \<open>The counting map after the assets \<open>pre\<close> have been added.\<close>

definition counted :: "(string \<Rightarrow> string) \<Rightarrow> AssetEntity list \<Rightarrow> (string \<rightharpoonup> nat)" where
  "counted extname pre =
     (\<lambda>f. let c = count_list (map (base_name extname) pre) f in if c = 0 then None else Some c)"

text \<open>
  The motion ids of a page as the spec words them: the non-empty \<open>livePhotoVideoId\<close>
  of each asset that carries one, in page order.
\<close>

definition spec_motion_ids :: "AssetEntity list \<Rightarrow> string list" where
  "spec_motion_ids page =
     List.map_filter
       (\<lambda>a. case livePhotoVideoId a of None \<Rightarrow> None | Some m \<Rightarrow> if m = [] then None else Some m)
       page"

text \<open>
  The working list of a page as the spec words it: the assets of the page, followed by the
  motion assets that one batched lookup returns for the page's motion ids; there is no
  lookup when the page has no motion id.
\<close>

definition spec_working :: "world \<Rightarrow> AssetEntity list \<Rightarrow> AssetEntity list" where
  "spec_working w page =
     page @ (if spec_motion_ids page = [] then [] else getByIds w (spec_motion_ids page))"

text \<open>
  For each asset of a working list, whether adding it makes the accumulated size exceed the
  threshold and so seals an archive; \<open>acc\<close> is the size accumulated so far.
\<close>

fun seals :: "int \<Rightarrow> int \<Rightarrow> AssetEntity list \<Rightarrow> bool list" where
  "seals T acc [] = []"
| "seals T acc (a # as) =
     (if acc + file_size a > T then True # seals T 0 as else False # seals T (acc + file_size a) as)"

text \<open>
  A working list ends on a seal when it is empty or its last asset seals an archive: the
  flush at the end of the page then finds the accumulator empty.
\<close>

definition ends_on_seal :: "int \<Rightarrow> AssetEntity list \<Rightarrow> bool" where
  "ends_on_seal T ws \<longleftrightarrow> ws = [] \<or> last (seals T 0 ws)"

text \<open>
  The index of the group that holds position \<open>k\<close> of the concatenation of the groups:
  applied to the \<open>assetIds\<close> of the archives, the number of the archive in which the
  \<open>k\<close>-th id of the plan lies.
\<close>

fun locate :: "'a list list \<Rightarrow> nat \<Rightarrow> nat" where
  "locate [] k = 0"
| "locate (g # gs) k = (if k < length g then 0 else Suc (locate gs (k - length g)))"

text \<open>
  What one page contributes when the loop enters it with the accumulator \<open>cur\<close>: the
  archives sealed by the size test, then the accumulator if it holds an id.
\<close>

fun page_plan :: "int \<Rightarrow> DownloadArchiveInfo \<Rightarrow> AssetEntity list \<Rightarrow> DownloadArchiveInfo list" where
  "page_plan T cur [] = (if assetIds cur \<noteq> [] then [cur] else [])"
| "page_plan T cur (a # as) =
     (if size' (put cur a) > T then put cur a # page_plan T fresh as
      else page_plan T (put cur a) as)"

section \<open>Concrete inputs\<close>

definition sample_asset :: "string \<Rightarrow> string \<Rightarrow> nat \<Rightarrow> string option \<Rightarrow> AssetEntity" where
  "sample_asset i name n live =
     \<lparr>id' = i, originalPath = ''upload/'' @ i @ ''.jpg'', originalFileName = name,
      livePhotoVideoId = live, exifInfo = Some \<lparr>fileSizeInByte = Some n\<rparr>\<rparr>"

text \<open>A world in which the gate admits the user \<open>owner\<close> and nobody else.\<close>

definition sample_world ::
  "(string list \<Rightarrow> AssetEntity list) \<Rightarrow> AssetEntity list list \<Rightarrow> (int \<Rightarrow> AssetEntity list) \<Rightarrow> world" where
  "sample_world byIds pages byDate =
     \<lparr>hasPermission = (\<lambda>u p t. u = ''owner''), getByIds = byIds, albumPages = (\<lambda>a. pages),
      userPages = (\<lambda>u. pages), getByDate = (\<lambda>u. byDate)\<rparr>"

definition owner :: AuthUserDto where
  "owner = \<lparr>auth_id = ''owner''\<rparr>"

definition stranger :: AuthUserDto where
  "stranger = \<lparr>auth_id = ''stranger''\<rparr>"

definition by_ids :: "string list \<Rightarrow> int option \<Rightarrow> DownloadDto" where
  "by_ids ids T = \<lparr>dto_assetIds = Some ids, albumId = None, userId = None, archiveSize = T\<rparr>"

definition by_album :: "string \<Rightarrow> int option \<Rightarrow> DownloadDto" where
  "by_album a T = \<lparr>dto_assetIds = None, albumId = Some a, userId = None, archiveSize = T\<rparr>"

text \<open>A still photo \<open>p\<close> of 10 bytes whose motion part \<open>m\<close> has 3 bytes.\<close>

definition live_world :: world where
  "live_world = sample_world
     (\<lambda>ids. if ids = [''p''] then [sample_asset ''p'' ''IMG_1'' 10 (Some ''m'')]
            else if ids = [''m''] then [sample_asset ''m'' ''IMG_1'' 3 None] else [])
     [] (\<lambda>d. [])"

text \<open>Three plain assets of 1, 2 and 3 bytes.\<close>

definition plain_world :: world where
  "plain_world = sample_world
     (\<lambda>ids. [sample_asset ''a'' ''IMG_a'' 1 None, sample_asset ''b'' ''IMG_b'' 2 None,
             sample_asset ''c'' ''IMG_c'' 3 None])
     [] (\<lambda>d. [])"

text \<open>
  An album of \<open>n + 1\<close> assets of one byte each, numbered from 0, that the store hands
  out as a page of \<open>n\<close> assets followed by a page of one.
\<close>

definition numbered :: "nat \<Rightarrow> AssetEntity" where
  "numbered k = sample_asset (string_of_nat k) (''IMG_'' @ string_of_nat k) 1 None"

definition album_world :: "nat \<Rightarrow> world" where
  "album_world n = sample_world (\<lambda>ids. []) [map numbered [0..<n], [numbered n]] (\<lambda>d. [])"

text \<open>The owner has one asset dated 2022, none dated 2021 and one dated 2020.\<close>

definition lane_world :: world where
  "lane_world = sample_world (\<lambda>ids. []) []
     (\<lambda>d. if d = 2022 then [sample_asset ''x'' ''IMG_x'' 1 None]
           else if d = 2020 then [sample_asset ''z'' ''IMG_z'' 1 None] else [])"

text \<open>Three assets that all carry the display name \<open>IMG_0001\<close>.\<close>

definition same_name_world :: world where
  "same_name_world = sample_world
     (\<lambda>ids. [sample_asset ''1'' ''IMG_0001'' 1 None, sample_asset ''2'' ''IMG_0001'' 1 None,
             sample_asset ''3'' ''IMG_0001'' 1 None])
     [] (\<lambda>d. [])"

text \<open>
  Two assets with the display name \<open>IMG_0001\<close> and one with the display name
  \<open>IMG_0001+1\<close>, as an entry taken from an earlier archive and uploaded again has it.
\<close>

definition reupload_world :: world where
  "reupload_world = sample_world
     (\<lambda>ids. [sample_asset ''1'' ''IMG_0001'' 1 None, sample_asset ''2'' ''IMG_0001'' 1 None,
             sample_asset ''3'' ''IMG_0001+1'' 1 None])
     [] (\<lambda>d. [])"

text \<open>A request with the default threshold.\<close>

definition request :: "string list option \<Rightarrow> string option \<Rightarrow> string option \<Rightarrow> DownloadDto" where
  "request ids a v = \<lparr>dto_assetIds = ids, albumId = a, userId = v, archiveSize = None\<rparr>"

text \<open>Dates as year numbers, for worked inputs of the memory lane.\<close>

definition years_before :: "int \<Rightarrow> int \<Rightarrow> int" where
  "years_before target k = target - k"

text \<open>
  An album of two pages: a still photo \<open>p\<close> of 10 bytes whose motion part \<open>m\<close> has
  3 bytes, then a plain asset \<open>b\<close> of 2 bytes.
\<close>

definition live_album_world :: world where
  "live_album_world = sample_world
     (\<lambda>ids. if ids = [''m''] then [sample_asset ''m'' ''IMG_1'' 3 None] else [])
     [[sample_asset ''p'' ''IMG_1'' 10 (Some ''m'')], [sample_asset ''b'' ''IMG_2'' 2 None]]
     (\<lambda>d. [])"

text \<open>
  An album of two pages: a plain asset \<open>a\<close> of 10 bytes, then a plain asset \<open>x\<close>
  of 10 bytes followed by a still photo \<open>p\<close> of 2 bytes whose motion part \<open>m\<close> has
  2 bytes.
\<close>

definition pair_world :: world where
  "pair_world = sample_world
     (\<lambda>ids. if ids = [''x'', ''p'']
            then [sample_asset ''x'' ''IMG_0'' 10 None, sample_asset ''p'' ''IMG_1'' 2 (Some ''m'')]
            else if ids = [''m''] then [sample_asset ''m'' ''IMG_1'' 2 None] else [])
     [[sample_asset ''a'' ''IMG_a'' 10 None],
      [sample_asset ''x'' ''IMG_0'' 10 None, sample_asset ''p'' ''IMG_1'' 2 (Some ''m'')]]
     (\<lambda>d. [])"

section \<open>The packing loop\<close>

subsection \<open>The loop and its reading without the store\<close>

text \<open>
  While the open object has not been pushed, a step of the loop changes no pushed archive:
  it either seals the open object and allocates a fresh one, or leaves the pushed archives
  as they are. Hence \<open>pack_assets\<close> pushes what \<open>pack_pure\<close> seals.
\<close>

lemma add_asset_sealed:
  assumes "unaliased s" "size' (put (heap s ! archive_var s) a) > T"
  shows "deref (add_asset T a s) = deref s @ [put (heap s ! archive_var s) a]"
    and "heap (add_asset T a s) ! archive_var (add_asset T a s) = fresh"
    and "unaliased (add_asset T a s)"
    and "trace (add_asset T a s) = trace s"
  using assms
  by (auto simp: add_asset_def Let_def put_def deref_def unaliased_def nth_append nth_list_update)

lemma add_asset_open:
  assumes "unaliased s" "\<not> size' (put (heap s ! archive_var s) a) > T"
  shows "deref (add_asset T a s) = deref s"
    and "heap (add_asset T a s) ! archive_var (add_asset T a s) = put (heap s ! archive_var s) a"
    and "unaliased (add_asset T a s)"
    and "trace (add_asset T a s) = trace s"
  using assms
  by (auto simp: add_asset_def Let_def put_def deref_def unaliased_def nth_append nth_list_update)

lemma pack_assets_sim:
  "unaliased s \<Longrightarrow>
     deref (pack_assets T as s) = deref s @ fst (pack_pure T (heap s ! archive_var s) as)
   \<and> heap (pack_assets T as s) ! archive_var (pack_assets T as s) = snd (pack_pure T (heap s ! archive_var s) as)
   \<and> unaliased (pack_assets T as s)
   \<and> trace (pack_assets T as s) = trace s"
proof (induction as arbitrary: s)
  case Nil
  then show ?case by simp
next
  case (Cons a as)
  show ?case
  proof (cases "size' (put (heap s ! archive_var s) a) > T")
    case True
    note s = add_asset_sealed [OF Cons.prems True]
    from Cons.IH [OF s(3)] show ?thesis
      using True by (simp add: s)
  next
    case False
    note s = add_asset_open [OF Cons.prems False]
    from Cons.IH [OF s(3)] show ?thesis
      using False by (simp add: s)
  qed
qed

lemma pack_pure_sizes:
  "sum_list (map size' (fst (pack_pure T cur as))) + size' (snd (pack_pure T cur as))
     = size' cur + sum_list (map file_size as)"
  by (induction as arbitrary: cur) (auto simp: put_def fresh_def)

lemma pack_pure_ids:
  "concat (map assetIds (fst (pack_pure T cur as))) @ assetIds (snd (pack_pure T cur as))
     = assetIds cur @ map id' as"
  by (induction as arbitrary: cur) (auto simp: put_def fresh_def)

lemma pack_pure_sealed_over: "x \<in> set (fst (pack_pure T cur as)) \<Longrightarrow> size' x > T"
  by (induction as arbitrary: cur) (auto split: if_splits)

lemma file_size_nonneg: "0 \<le> file_size a"
  by (simp add: file_size_def split: option.splits)

lemma sum_file_size_nonneg: "0 \<le> sum_list (map file_size as)"
  by (induction as) (auto simp: file_size_nonneg)

lemma pack_pure_fits:
  "size' cur + sum_list (map file_size as) \<le> T \<Longrightarrow>
     pack_pure T cur as = ([], \<lparr>size' = size' cur + sum_list (map file_size as), assetIds = assetIds cur @ map id' as\<rparr>)"
proof (induction as arbitrary: cur)
  case Nil
  then show ?case by simp
next
  case (Cons a as)
  have "0 \<le> sum_list (map file_size as)" by (rule sum_file_size_nonneg)
  with Cons.prems have "\<not> size' (put cur a) > T" by (simp add: put_def)
  moreover have "size' (put cur a) + sum_list (map file_size as) \<le> T"
    using Cons.prems by (simp add: put_def)
  ultimately show ?case using Cons.IH [of "put cur a"] by (simp add: put_def add.assoc)
qed

lemma pack_pure_negative:
  "T < 0 \<Longrightarrow> pack_pure T fresh as = (map (\<lambda>a. \<lparr>size' = file_size a, assetIds = [id' a]\<rparr>) as, fresh)"
proof (induction as)
  case Nil
  then show ?case by simp
next
  case (Cons a as)
  have "0 \<le> file_size a" by (rule file_size_nonneg)
  with Cons show ?case by (simp add: put_def fresh_def)
qed

lemma foldl_total: "foldl (\<lambda>total item. total + size' item) n xs = n + sum_list (map size' xs)"
  by (induction xs arbitrary: n) auto

lemma unaliased_init: "unaliased (init_state evs)"
  by (simp add: unaliased_def init_state_def)

subsection \<open>One page\<close>

text \<open>
  For a single page the result is the sealed archives followed by the open accumulator when
  it holds an id. Sizes and ids are preserved, and every archive before the last exceeds
  the threshold.
\<close>

lemma pack_pure_open:
  "snd (pack_pure T cur as) = cur \<or> snd (pack_pure T cur as) = fresh
     \<or> assetIds (snd (pack_pure T cur as)) \<noteq> []"
proof (induction as arbitrary: cur)
  case Nil
  then show ?case by simp
next
  case (Cons a as)
  show ?case
  proof (cases "size' (put cur a) > T")
    case True
    then show ?thesis using Cons.IH [of fresh] by auto
  next
    case False
    then show ?thesis using Cons.IH [of "put cur a"] by (auto simp: put_def)
  qed
qed

lemma deref_response: "archives (response s) = deref s"
  by (simp add: response_def deref_def Let_def)

lemma totalSize_response: "totalSize (response s) = sum_list (map size' (deref s))"
  by (simp add: response_def deref_def Let_def foldl_total)

lemma process_page_sim:
  assumes "unaliased s"
  shows "deref (process_page w T pg s) =
           deref s @ fst (pack_pure T (heap s ! archive_var s) (with_motion w (snd pg)))
             @ (if assetIds (snd (pack_pure T (heap s ! archive_var s) (with_motion w (snd pg)))) \<noteq> []
                then [snd (pack_pure T (heap s ! archive_var s) (with_motion w (snd pg)))] else [])"
proof -
  let ?s0 = "s\<lparr>trace := trace s @ fst pg
                   @ (if motionIds_of (snd pg) \<noteq> [] then [GetByIds (motionIds_of (snd pg))] else [])\<rparr>"
  have u0: "unaliased ?s0" using assms by (simp add: unaliased_def)
  have h0: "heap ?s0 ! archive_var ?s0 = heap s ! archive_var s" by simp
  have d0: "deref ?s0 = deref s" by (simp add: deref_def)
  note sim = pack_assets_sim [OF u0, of T "with_motion w (snd pg)", unfolded h0 d0]
  show ?thesis
    using sim by (simp add: process_page_def Let_def deref_def)
qed

lemma single_page_archives:
  "deref (for_await w T [pg] (init_state evs)) =
     fst (pack_pure T fresh (with_motion w (snd pg)))
       @ (if assetIds (snd (pack_pure T fresh (with_motion w (snd pg)))) \<noteq> []
          then [snd (pack_pure T fresh (with_motion w (snd pg)))] else [])"
  using process_page_sim [OF unaliased_init, of w T pg evs]
  by (simp add: init_state_def deref_def)

lemma single_page_sizes:
  "sum_list (map size' (deref (for_await w T [pg] (init_state evs))))
     = sum_list (map file_size (with_motion w (snd pg)))"
proof -
  let ?P = "pack_pure T fresh (with_motion w (snd pg))"
  have e: "sum_list (map size' (fst ?P)) + size' (snd ?P) = sum_list (map file_size (with_motion w (snd pg)))"
    using pack_pure_sizes [of T fresh "with_motion w (snd pg)"] by (simp add: fresh_def)
  have i: "concat (map assetIds (fst ?P)) @ assetIds (snd ?P) = map id' (with_motion w (snd pg))"
    using pack_pure_ids [of T fresh "with_motion w (snd pg)"] by (simp add: fresh_def)
  show ?thesis
  proof (cases "assetIds (snd ?P) = []")
    case True
    then have "snd ?P = fresh" using pack_pure_open [of T fresh "with_motion w (snd pg)"] by auto
    then have "size' (snd ?P) = 0" by (simp add: fresh_def)
    then show ?thesis unfolding single_page_archives using e True by simp
  next
    case False
    then show ?thesis unfolding single_page_archives using e by simp
  qed
qed

lemma single_page_ids:
  "concat (map assetIds (deref (for_await w T [pg] (init_state evs))))
     = map id' (with_motion w (snd pg))"
proof -
  let ?P = "pack_pure T fresh (with_motion w (snd pg))"
  have i: "concat (map assetIds (fst ?P)) @ assetIds (snd ?P) = map id' (with_motion w (snd pg))"
    using pack_pure_ids [of T fresh "with_motion w (snd pg)"] by (simp add: fresh_def)
  show ?thesis unfolding single_page_archives using i by (cases "assetIds (snd ?P) = []") simp_all
qed

lemma single_page_over:
  "deref (for_await w T [pg] (init_state evs)) = xs @ [y] \<Longrightarrow> x \<in> set xs \<Longrightarrow> size' x > T"
proof -
  let ?P = "pack_pure T fresh (with_motion w (snd pg))"
  assume d: "deref (for_await w T [pg] (init_state evs)) = xs @ [y]" and x: "x \<in> set xs"
  have "set xs \<subseteq> set (fst ?P)"
  proof (cases "assetIds (snd ?P) = []")
    case True
    with d have "fst ?P = xs @ [y]" unfolding single_page_archives by simp
    then show ?thesis by auto
  next
    case False
    with d have "fst ?P @ [snd ?P] = xs @ [y]" unfolding single_page_archives by simp
    then show ?thesis by auto
  qed
  with x show ?thesis using pack_pure_sealed_over by blast
qed

lemma single_page_fits:
  assumes "sum_list (map file_size (with_motion w (snd pg))) \<le> T" "with_motion w (snd pg) \<noteq> []"
  shows "deref (for_await w T [pg] (init_state evs)) =
           [\<lparr>size' = sum_list (map file_size (with_motion w (snd pg))),
              assetIds = map id' (with_motion w (snd pg))\<rparr>]"
proof -
  have "pack_pure T fresh (with_motion w (snd pg)) =
          ([], \<lparr>size' = size' fresh + sum_list (map file_size (with_motion w (snd pg))),
                  assetIds = assetIds fresh @ map id' (with_motion w (snd pg))\<rparr>)"
    using assms(1) by (intro pack_pure_fits) (simp add: fresh_def)
  then show ?thesis unfolding single_page_archives using assms(2) by (simp add: fresh_def)
qed

subsection \<open>Several pages\<close>

text \<open>
  The flush at the end of a page pushes the open object and keeps it open. With a negative
  threshold the open object is always fresh at the end of a page, so nothing is flushed.
  When two pages together fit under the threshold, the object pushed after the first page
  is filled further by the second and pushed again.
\<close>

lemma process_page_negative:
  assumes "T < 0" "unaliased s" "heap s ! archive_var s = fresh"
  shows "deref (process_page w T pg s) = deref s @ map single (with_motion w (snd pg))"
    and "unaliased (process_page w T pg s)"
    and "heap (process_page w T pg s) ! archive_var (process_page w T pg s) = fresh"
proof -
  let ?s0 = "s\<lparr>trace := trace s @ fst pg
                   @ (if motionIds_of (snd pg) \<noteq> [] then [GetByIds (motionIds_of (snd pg))] else [])\<rparr>"
  let ?s1 = "pack_assets T (with_motion w (snd pg)) ?s0"
  have u0: "unaliased ?s0" using assms(2) by (simp add: unaliased_def)
  have h0: "heap ?s0 ! archive_var ?s0 = fresh" using assms(3) by simp
  have d0: "deref ?s0 = deref s" by (simp add: deref_def)
  have P: "pack_pure T fresh (with_motion w (snd pg)) = (map single (with_motion w (snd pg)), fresh)"
    using pack_pure_negative [OF assms(1)] by (simp add: single_def)
  note sim = pack_assets_sim [OF u0, of T "with_motion w (snd pg)", unfolded h0 d0 P]
  have open1: "assetIds (heap ?s1 ! archive_var ?s1) = []" using sim by (simp add: fresh_def)
  have pp: "process_page w T pg s = ?s1"
    using open1 by (simp add: process_page_def Let_def)
  show "deref (process_page w T pg s) = deref s @ map single (with_motion w (snd pg))"
    unfolding pp using sim by simp
  show "unaliased (process_page w T pg s)" unfolding pp using sim by simp
  show "heap (process_page w T pg s) ! archive_var (process_page w T pg s) = fresh"
    unfolding pp using sim by simp
qed

lemma for_await_negative:
  "T < 0 \<Longrightarrow> unaliased s \<Longrightarrow> heap s ! archive_var s = fresh \<Longrightarrow>
     deref (for_await w T pgs s) = deref s @ map single (concat (map (\<lambda>pg. with_motion w (snd pg)) pgs))"
proof (induction pgs arbitrary: s)
  case Nil
  then show ?case by simp
next
  case (Cons pg pgs)
  note p = process_page_negative [OF Cons.prems, of w pg]
  from Cons.IH [OF Cons.prems(1) p(2) p(3)] show ?case by (simp add: p(1))
qed

lemma add_asset_nonempty: "pushed_nonempty s \<Longrightarrow> pushed_nonempty (add_asset T a s)"
  by (auto simp: pushed_nonempty_def add_asset_def Let_def nth_append nth_list_update)

lemma pack_assets_nonempty: "pushed_nonempty s \<Longrightarrow> pushed_nonempty (pack_assets T as s)"
  by (induction as arbitrary: s) (auto simp: add_asset_nonempty)

lemma process_page_nonempty: "pushed_nonempty s \<Longrightarrow> pushed_nonempty (process_page w T pg s)"
proof -
  assume a: "pushed_nonempty s"
  let ?s0 = "s\<lparr>trace := trace s @ fst pg
                   @ (if motionIds_of (snd pg) \<noteq> [] then [GetByIds (motionIds_of (snd pg))] else [])\<rparr>"
  have "pushed_nonempty ?s0" using a by (simp add: pushed_nonempty_def)
  then have "pushed_nonempty (pack_assets T (with_motion w (snd pg)) ?s0)"
    by (rule pack_assets_nonempty)
  then show ?thesis
    by (auto simp: process_page_def Let_def pushed_nonempty_def)
qed

lemma for_await_nonempty: "pushed_nonempty s \<Longrightarrow> pushed_nonempty (for_await w T pgs s)"
  by (induction pgs arbitrary: s) (auto simp: process_page_nonempty)

lemma init_nonempty: "pushed_nonempty (init_state evs)"
  by (simp add: pushed_nonempty_def init_state_def)

lemma trace_add_asset: "trace (add_asset T a s) = trace s"
  by (simp add: add_asset_def Let_def)

lemma trace_pack_assets: "trace (pack_assets T as s) = trace s"
  by (induction as arbitrary: s) (auto simp: trace_add_asset)

lemma trace_process_page: "trace (process_page w T pg s) = trace s @ page_events pg"
  by (simp add: process_page_def Let_def trace_pack_assets page_events_def)

lemma trace_for_await: "trace (for_await w T pgs s) = trace s @ concat (map page_events pgs)"
  by (induction pgs arbitrary: s) (auto simp: trace_process_page)

lemma paged_no_check:
  "(\<And>k. \<not> is_access_check (ev k)) \<Longrightarrow> filter is_access_check (concat (map page_events (paged ev k ps))) = []"
  by (induction ps arbitrary: k) (auto simp: page_events_def is_access_check_def)

lemma produce_no_check: "filter is_access_check (concat (map page_events (produce w src))) = []"
  by (cases src) (auto simp: paged_no_check is_access_check_def page_events_def)

lemma pack_assets_fits:
  "archive_var s < length (heap s) \<Longrightarrow>
   size' (heap s ! archive_var s) + sum_list (map file_size as) \<le> T \<Longrightarrow>
   pack_assets T as s =
     s\<lparr>heap := (heap s)[archive_var s :=
          \<lparr>size' = size' (heap s ! archive_var s) + sum_list (map file_size as),
           assetIds = assetIds (heap s ! archive_var s) @ map id' as\<rparr>]\<rparr>"
proof (induction as arbitrary: s)
  case Nil
  have e: "\<lparr>size' = size' (heap s ! archive_var s), assetIds = assetIds (heap s ! archive_var s)\<rparr>
          = heap s ! archive_var s"
    by simp
  show ?case
    unfolding pack_assets.simps list.map sum_list.Nil append_Nil2 add_0_right e list_update_id
    by simp
next
  case (Cons a as)
  have nn: "0 \<le> sum_list (map file_size as)" by (rule sum_file_size_nonneg)
  let ?obj = "\<lparr>size' = size' (heap s ! archive_var s) + file_size a,
               assetIds = assetIds (heap s ! archive_var s) @ [id' a]\<rparr>"
  have step: "add_asset T a s = s\<lparr>heap := (heap s)[archive_var s := ?obj]\<rparr>"
    using Cons.prems nn by (simp add: add_asset_def Let_def)
  have "pack_assets T (a # as) s = pack_assets T as (s\<lparr>heap := (heap s)[archive_var s := ?obj]\<rparr>)"
    by (simp add: step)
  also have "\<dots> = s\<lparr>heap := (heap s)[archive_var s :=
          \<lparr>size' = size' (heap s ! archive_var s) + sum_list (map file_size (a # as)),
           assetIds = assetIds (heap s ! archive_var s) @ map id' (a # as)\<rparr>]\<rparr>"
    using Cons.prems by (subst Cons.IH) (simp_all add: add.assoc)
  finally show ?case .
qed

lemma two_pages_alias:
  assumes "sum_list (map file_size (with_motion w (snd pg1) @ with_motion w (snd pg2))) \<le> T"
    and "with_motion w (snd pg1) \<noteq> []"
  shows "deref (for_await w T [pg1, pg2] (init_state evs)) =
           [\<lparr>size' = sum_list (map file_size (with_motion w (snd pg1) @ with_motion w (snd pg2))),
             assetIds = map id' (with_motion w (snd pg1) @ with_motion w (snd pg2))\<rparr>,
            \<lparr>size' = sum_list (map file_size (with_motion w (snd pg1) @ with_motion w (snd pg2))),
             assetIds = map id' (with_motion w (snd pg1) @ with_motion w (snd pg2))\<rparr>]"
proof -
  let ?w1 = "with_motion w (snd pg1)" and ?w2 = "with_motion w (snd pg2)"
  have n1: "0 \<le> sum_list (map file_size ?w1)" and n2: "0 \<le> sum_list (map file_size ?w2)"
    by (rule sum_file_size_nonneg)+
  let ?o1 = "\<lparr>size' = sum_list (map file_size ?w1), assetIds = map id' ?w1\<rparr>"
  let ?e1 = "evs @ page_events pg1"
  have p1: "process_page w T pg1 (init_state evs) =
         \<lparr>heap = [?o1], archives_var = [0], archive_var = 0, trace = ?e1\<rparr>"
    using assms n1 n2
    by (simp add: process_page_def Let_def pack_assets_fits init_state_def fresh_def page_events_def)
  let ?o2 = "\<lparr>size' = sum_list (map file_size (?w1 @ ?w2)), assetIds = map id' (?w1 @ ?w2)\<rparr>"
  have p2: "process_page w T pg2 \<lparr>heap = [?o1], archives_var = [0], archive_var = 0, trace = ?e1\<rparr> =
         \<lparr>heap = [?o2], archives_var = [0, 0], archive_var = 0, trace = ?e1 @ page_events pg2\<rparr>"
    using assms n1 n2
    by (simp add: process_page_def Let_def pack_assets_fits page_events_def)
  show ?thesis
    by (simp add: p1 p2 deref_def)
qed

section \<open>Memory lane and archive names\<close>

lemma requests_loop_upto: "requests_loop f n i acc = acc @ map f [i..n]"
proof (induction f n i acc rule: requests_loop.induct)
  case (1 f n i requests)
  show ?case
  proof (cases "i \<le> n")
    case True
    then have "[i..n] = i # [i + 1..n]" by (simp add: upto_rec1)
    with True "1" show ?thesis by (simp add: requests_loop.simps [of f n i requests])
  next
    case False
    then show ?thesis by (simp add: requests_loop.simps [of f n i requests])
  qed
qed

lemma string_of_nat_1: "string_of_nat (Suc 0) = ''1''"
  by (subst string_of_nat.simps) (simp add: digit_char_def)

lemma onRequest_entry:
  "1 \<le> k \<Longrightarrow> snd (onRequest w m f u t k) = spec_entry w m f u t k"
  by (simp add: onRequest_def spec_entry_def string_of_int_def string_of_nat_1)

lemma add_file_counted:
  "add_file extname a (counted extname pre, out) =
     (counted extname (pre @ [a]), out @ [(originalPath a, spec_entry_name extname (pre @ [a]) (length pre))])"
  by (auto simp: add_file_def Let_def counted_def spec_entry_name_def base_name_def fun_eq_iff)

lemma spec_entry_name_prefix:
  "i < length xs \<Longrightarrow> spec_entry_name extname (xs @ ys) i = spec_entry_name extname xs i"
  by (simp add: spec_entry_name_def Let_def nth_append)

lemma add_files_counted:
  "snd (add_files extname as (counted extname pre, out)) =
     out @ map (\<lambda>j. (originalPath ((pre @ as) ! j), spec_entry_name extname (pre @ as) j))
             [length pre..<length pre + length as]"
proof (induction as arbitrary: pre out)
  case Nil
  then show ?case by simp
next
  case (Cons a as)
  have "snd (add_files extname (a # as) (counted extname pre, out)) =
        snd (add_files extname as (counted extname (pre @ [a]),
               out @ [(originalPath a, spec_entry_name extname (pre @ [a]) (length pre))]))"
    by (simp add: add_file_counted)
  also have "\<dots> = (out @ [(originalPath a, spec_entry_name extname (pre @ [a]) (length pre))])
       @ map (\<lambda>j. (originalPath (((pre @ [a]) @ as) ! j), spec_entry_name extname ((pre @ [a]) @ as) j))
             [length (pre @ [a])..<length (pre @ [a]) + length as]"
    by (rule Cons.IH)
  also have "\<dots> = out @ map (\<lambda>j. (originalPath ((pre @ a # as) ! j), spec_entry_name extname (pre @ a # as) j))
             [length pre..<length pre + length (a # as)]"
  proof -
    have "length pre < length pre + length (a # as)" by simp
    then have "[length pre..<length pre + length (a # as)]
         = length pre # [Suc (length pre)..<length pre + length (a # as)]"
      by (rule upt_conv_Cons)
    then have 1: "[length pre..<length pre + length (a # as)]
         = length pre # [Suc (length pre)..<Suc (length pre) + length as]"
      by (simp only: length_Cons add_Suc_right add_Suc)
    have 3: "length (pre @ [a]) = Suc (length pre)" and 4: "(pre @ [a]) @ as = pre @ a # as"
      by simp_all
    have 2: "spec_entry_name extname (pre @ a # as) (length pre) = spec_entry_name extname (pre @ [a]) (length pre)"
      using spec_entry_name_prefix [of "length pre" "pre @ [a]" extname as] by simp
    show ?thesis unfolding 1 3 4 by (simp add: 2)
  qed
  finally show ?case .
qed

lemma counted_empty: "counted extname [] = Map.empty"
  by (simp add: counted_def fun_eq_iff)

section \<open>Evaluation of the concrete inputs\<close>

lemmas eval_defs =
  getDownloadInfo_def getDownloadAssets_def process_page_def add_asset_def Let_def init_state_def
  response_def with_motion_def motionIds_of_def truthy_def file_size_def fresh_def
  targetSize_of_def GiB_def PAGINATION_SIZE_def sample_asset_def sample_world_def owner_def
  stranger_def by_ids_def by_album_def

lemma string_of_nat_0: "string_of_nat 0 = ''0''"
  by (subst string_of_nat.simps) (simp add: digit_char_def)

lemma getDownloadInfo_run:
  "getDownloadAssets w authUser dto = (evs, Inr src) \<Longrightarrow>
     getDownloadInfo w authUser dto =
       (evs @ concat (map page_events (produce w src)),
        Inr (response (for_await w (targetSize_of dto) (produce w src) (init_state evs))))"
  by (simp add: getDownloadInfo_def Let_def trace_for_await init_state_def)

subsection \<open>Runs in which no page but the last leaves the accumulator open\<close>

text \<open>
  The working list of the model is the one the spec words, and the plan of a page is what
  \<open>pack_pure\<close> seals followed by the open accumulator. When every page but the last
  ends on a seal, each page is entered with a fresh accumulator that has not been pushed,
  and the result is the plans of the pages one after the other.
\<close>

lemma motionIds_spec: "motionIds_of page = spec_motion_ids page"
  by (induction page)
    (auto simp: motionIds_of_def spec_motion_ids_def truthy_def map_filter_simps split: option.splits)

lemma with_motion_spec: "with_motion w page = spec_working w page"
  by (simp add: with_motion_def spec_working_def motionIds_spec)

lemma page_plan_pack:
  "page_plan T cur ws =
     fst (pack_pure T cur ws)
       @ (if assetIds (snd (pack_pure T cur ws)) \<noteq> [] then [snd (pack_pure T cur ws)] else [])"
  by (induction ws arbitrary: cur) auto

lemma length_seals: "length (seals T acc ws) = length ws"
  by (induction ws arbitrary: acc) auto

lemma seals_not_Nil: "ws \<noteq> [] \<Longrightarrow> seals T acc ws \<noteq> []"
  using length_seals [of T acc ws] by auto

lemma open_empty_iff_last_seals:
  "ws \<noteq> [] \<Longrightarrow> assetIds (snd (pack_pure T cur ws)) = [] \<longleftrightarrow> last (seals T (size' cur) ws)"
proof (induction ws arbitrary: cur)
  case Nil
  then show ?case by simp
next
  case (Cons a as)
  show ?case
  proof (cases "as = []")
    case True
    then show ?thesis by (simp add: put_def fresh_def)
  next
    case False
    have n: "seals T acc as \<noteq> []" for acc using False by (rule seals_not_Nil)
    show ?thesis
      using Cons.IH [OF False, of fresh] Cons.IH [OF False, of "put cur a"] n
      by (simp add: put_def fresh_def)
  qed
qed

lemma ends_on_seal_open:
  "ends_on_seal T ws \<Longrightarrow> snd (pack_pure T fresh ws) = fresh"
proof -
  assume e: "ends_on_seal T ws"
  have "assetIds (snd (pack_pure T fresh ws)) = []"
  proof (cases "ws = []")
    case True
    then show ?thesis by (simp add: fresh_def)
  next
    case False
    with e open_empty_iff_last_seals [OF False, of T fresh] show ?thesis
      by (simp add: ends_on_seal_def fresh_def)
  qed
  with pack_pure_open [of T fresh ws] show ?thesis by auto
qed

lemma process_page_sealed:
  assumes "unaliased s" "heap s ! archive_var s = fresh" "ends_on_seal T (with_motion w (snd pg))"
  shows "deref (process_page w T pg s) = deref s @ page_plan T fresh (with_motion w (snd pg))"
    and "unaliased (process_page w T pg s)"
    and "heap (process_page w T pg s) ! archive_var (process_page w T pg s) = fresh"
proof -
  let ?ws = "with_motion w (snd pg)"
  let ?s0 = "s\<lparr>trace := trace s @ fst pg
                   @ (if motionIds_of (snd pg) \<noteq> [] then [GetByIds (motionIds_of (snd pg))] else [])\<rparr>"
  let ?s1 = "pack_assets T ?ws ?s0"
  have u0: "unaliased ?s0" using assms(1) by (simp add: unaliased_def)
  have h0: "heap ?s0 ! archive_var ?s0 = fresh" using assms(2) by simp
  have d0: "deref ?s0 = deref s" by (simp add: deref_def)
  have o: "snd (pack_pure T fresh ?ws) = fresh" using assms(3) by (rule ends_on_seal_open)
  note sim = pack_assets_sim [OF u0, of T ?ws, unfolded h0 d0]
  have open1: "assetIds (heap ?s1 ! archive_var ?s1) = []" using sim o by (simp add: fresh_def)
  have pp: "process_page w T pg s = ?s1"
    using open1 by (simp add: process_page_def Let_def)
  have pl: "page_plan T fresh ?ws = fst (pack_pure T fresh ?ws)"
    unfolding page_plan_pack o by (simp add: fresh_def)
  show "deref (process_page w T pg s) = deref s @ page_plan T fresh ?ws"
    unfolding pp pl using sim by simp
  show "unaliased (process_page w T pg s)" unfolding pp using sim by simp
  show "heap (process_page w T pg s) ! archive_var (process_page w T pg s) = fresh"
    unfolding pp using sim o by simp
qed

lemma process_page_last:
  assumes "unaliased s" "heap s ! archive_var s = fresh"
  shows "deref (process_page w T pg s) = deref s @ page_plan T fresh (with_motion w (snd pg))"
  using process_page_sim [OF assms(1), of w T pg] assms(2) by (simp add: page_plan_pack)

lemma for_await_flush_free:
  "unaliased s \<Longrightarrow> heap s ! archive_var s = fresh \<Longrightarrow>
   \<forall>pg \<in> set (butlast pgs). ends_on_seal T (with_motion w (snd pg)) \<Longrightarrow>
     deref (for_await w T pgs s) =
       deref s @ concat (map (\<lambda>pg. page_plan T fresh (with_motion w (snd pg))) pgs)"
proof (induction pgs arbitrary: s)
  case Nil
  then show ?case by simp
next
  case (Cons pg pgs)
  show ?case
  proof (cases "pgs = []")
    case True
    then show ?thesis using process_page_last [OF Cons.prems(1,2), of w T pg] by simp
  next
    case False
    then have e: "ends_on_seal T (with_motion w (snd pg))"
      and r: "\<forall>pg \<in> set (butlast pgs). ends_on_seal T (with_motion w (snd pg))"
      using Cons.prems(3) by auto
    note p = process_page_sealed [OF Cons.prems(1,2) e]
    from Cons.IH [OF p(2) p(3) r] show ?thesis by (simp add: p(1))
  qed
qed

lemma page_plan_sizes:
  "(assetIds cur = [] \<longrightarrow> size' cur = 0) \<Longrightarrow>
     sum_list (map size' (page_plan T cur ws)) = size' cur + sum_list (map file_size ws)"
  by (induction ws arbitrary: cur) (auto simp: put_def fresh_def)

lemma page_plan_ids:
  "concat (map assetIds (page_plan T cur ws)) = assetIds cur @ map id' ws"
  by (induction ws arbitrary: cur) (auto simp: put_def fresh_def)

lemma plan_sizes:
  "sum_list (map size' (concat (map (\<lambda>pg. page_plan T fresh (f pg)) pgs)))
     = sum_list (map file_size (concat (map f pgs)))"
  by (induction pgs) (auto simp: page_plan_sizes fresh_def)

lemma plan_ids:
  "concat (map assetIds (concat (map (\<lambda>pg. page_plan T fresh (f pg)) pgs)))
     = map id' (concat (map f pgs))"
  by (induction pgs) (auto simp: page_plan_ids fresh_def)

lemma locate_append_left:
  "k < length (concat gs) \<Longrightarrow> locate (gs @ hs) k = locate gs k"
proof (induction gs arbitrary: k)
  case Nil
  then show ?case by simp
next
  case (Cons g gs)
  then show ?case by (cases "k < length g") auto
qed

lemma locate_append_right:
  "locate (gs @ hs) (length (concat gs) + k) = length gs + locate hs k"
proof (induction gs)
  case Nil
  then show ?case by simp
next
  case (Cons g gs)
  have "length g + length (concat gs) + k - length g = length (concat gs) + k" by simp
  with Cons show ?case by simp
qed

lemma locate_first_group:
  "p < length (assetIds cur) \<Longrightarrow> locate (map assetIds (page_plan T cur ws)) p = 0"
proof (induction ws arbitrary: cur)
  case Nil
  then show ?case by auto
next
  case (Cons a as)
  show ?case
  proof (cases "size' (put cur a) > T")
    case True
    then show ?thesis using Cons.prems by (simp add: put_def)
  next
    case False
    have "p < length (assetIds (put cur a))" using Cons.prems by (simp add: put_def)
    from Cons.IH [OF this] False show ?thesis by simp
  qed
qed

lemma locate_page_plan:
  "k < length ws \<Longrightarrow>
     locate (map assetIds (page_plan T cur ws)) (length (assetIds cur) + k)
       = length (filter (\<lambda>b. b) (take k (seals T (size' cur) ws)))"
proof (induction ws arbitrary: cur k)
  case Nil
  then show ?case by simp
next
  case (Cons a as)
  show ?case
  proof (cases k)
    case 0
    have "length (assetIds cur) < length (assetIds (put cur a))" by (simp add: put_def)
    then have "locate (map assetIds (page_plan T (put cur a) as)) (length (assetIds cur)) = 0"
      by (rule locate_first_group)
    then show ?thesis using 0 by (simp add: put_def)
  next
    case (Suc k')
    then have k': "k' < length as" using Cons.prems by simp
    show ?thesis
    proof (cases "size' (put cur a) > T")
      case True
      have "locate (map assetIds (page_plan T fresh as)) (length (assetIds fresh) + k')
          = length (filter (\<lambda>b. b) (take k' (seals T (size' fresh) as)))"
        by (rule Cons.IH [OF k'])
      then show ?thesis using True Suc by (simp add: put_def fresh_def)
    next
      case False
      have "locate (map assetIds (page_plan T (put cur a) as)) (length (assetIds (put cur a)) + k')
          = length (filter (\<lambda>b. b) (take k' (seals T (size' (put cur a)) as)))"
        by (rule Cons.IH [OF k'])
      then show ?thesis using False Suc by (simp add: put_def)
    qed
  qed
qed

lemma count_take_eq:
  assumes "i \<le> j" "j \<le> length bs"
  shows "length (filter (\<lambda>b. b) (take i bs)) = length (filter (\<lambda>b. b) (take j bs))
           \<longleftrightarrow> (\<forall>k. i \<le> k \<and> k < j \<longrightarrow> \<not> bs ! k)"
proof -
  have t: "take j bs = take i bs @ take (j - i) (drop i bs)"
    using assms by (metis le_add_diff_inverse take_add)
  have "(\<forall>k. i \<le> k \<and> k < j \<longrightarrow> \<not> bs ! k) \<longleftrightarrow> (\<forall>n < j - i. \<not> bs ! (i + n))"
  proof
    assume a: "\<forall>k. i \<le> k \<and> k < j \<longrightarrow> \<not> bs ! k"
    show "\<forall>n < j - i. \<not> bs ! (i + n)"
    proof (intro allI impI)
      fix n assume "n < j - i"
      then have "i \<le> i + n \<and> i + n < j" by simp
      with a show "\<not> bs ! (i + n)" by blast
    qed
  next
    assume a: "\<forall>n < j - i. \<not> bs ! (i + n)"
    show "\<forall>k. i \<le> k \<and> k < j \<longrightarrow> \<not> bs ! k"
    proof (intro allI impI)
      fix k assume k: "i \<le> k \<and> k < j"
      then have "k - i < j - i" by arith
      with a have "\<not> bs ! (i + (k - i))" by blast
      with k show "\<not> bs ! k" by simp
    qed
  qed
  also have "\<dots> \<longleftrightarrow> (\<forall>b \<in> set (take (j - i) (drop i bs)). \<not> b)"
  proof -
    have l: "length (take (j - i) (drop i bs)) = j - i" using assms by simp
    have n: "take (j - i) (drop i bs) ! n = bs ! (i + n)" if "n < j - i" for n
      using that assms by simp
    show ?thesis
      unfolding all_set_conv_all_nth l using n by auto
  qed
  also have "\<dots> \<longleftrightarrow> filter (\<lambda>b. b) (take (j - i) (drop i bs)) = []"
    by (simp add: filter_empty_conv)
  finally show ?thesis unfolding t by auto
qed

lemma flush_free_archives:
  assumes "getDownloadAssets w authUser dto = (evs, Inr src)"
    and "\<forall>pg \<in> set (butlast (produce w src)). ends_on_seal (targetSize_of dto) (spec_working w (snd pg))"
  shows "snd (getDownloadInfo w authUser dto) =
           Inr (response (for_await w (targetSize_of dto) (produce w src) (init_state evs)))"
    and "archives (response (for_await w (targetSize_of dto) (produce w src) (init_state evs))) =
           concat (map (\<lambda>pg. page_plan (targetSize_of dto) fresh (spec_working w (snd pg))) (produce w src))"
    and "totalSize (response (for_await w (targetSize_of dto) (produce w src) (init_state evs))) =
           sum_list (map size'
             (concat (map (\<lambda>pg. page_plan (targetSize_of dto) fresh (spec_working w (snd pg))) (produce w src))))"
proof -
  let ?s = "for_await w (targetSize_of dto) (produce w src) (init_state evs)"
  show "snd (getDownloadInfo w authUser dto) = Inr (response ?s)"
    using getDownloadInfo_run [OF assms(1)] by simp
  have o: "heap (init_state evs) ! archive_var (init_state evs) = fresh"
    by (simp add: init_state_def)
  have d0: "deref (init_state evs) = []" by (simp add: deref_def init_state_def)
  have h: "\<forall>pg \<in> set (butlast (produce w src)). ends_on_seal (targetSize_of dto) (with_motion w (snd pg))"
    using assms(2) by (simp add: with_motion_spec)
  have d: "deref ?s =
      concat (map (\<lambda>pg. page_plan (targetSize_of dto) fresh (spec_working w (snd pg))) (produce w src))"
    using for_await_flush_free [OF unaliased_init o h] unfolding d0 with_motion_spec by simp
  show "archives (response ?s) =
      concat (map (\<lambda>pg. page_plan (targetSize_of dto) fresh (spec_working w (snd pg))) (produce w src))"
    unfolding deref_response by (rule d)
  show "totalSize (response ?s) = sum_list (map size'
      (concat (map (\<lambda>pg. page_plan (targetSize_of dto) fresh (spec_working w (snd pg))) (produce w src))))"
    unfolding totalSize_response d ..
qed

lemma spec_working_plain: "spec_motion_ids page = [] \<Longrightarrow> spec_working w page = page"
  by (simp add: spec_working_def)

lemma spec_motion_ids_member:
  "a \<in> set page \<Longrightarrow> livePhotoVideoId a = Some m \<Longrightarrow> m \<noteq> [] \<Longrightarrow> m \<in> set (spec_motion_ids page)"
  by (force simp: spec_motion_ids_def map_filter_def)

section \<open>The claims about getDownloadInfo\<close>

text \<open>
  Claim C1, as stated, fails on a live photo: for the single input asset \<open>p\<close> of 10
  bytes with threshold 100 the only archive has 13 bytes and also holds the id \<open>m\<close>
  of the motion part, which the loop fetched and appended.
\<close>

theorem C1_counterexample_live_photo:
  "snd (getDownloadInfo live_world owner (by_ids [''p''] (Some 100))) =
     Inr \<lparr>totalSize = 13, archives = [\<lparr>size' = 13, assetIds = [''p'', ''m'']\<rparr>]\<rparr>
   \<and> sum_list (map size' [\<lparr>size' = 13, assetIds = [''p'', ''m'']\<rparr>])
       \<noteq> sum_list (map file_size (getByIds live_world [''p'']))
   \<and> map id' (getByIds live_world [''p'']) = [''p'']"
  by (simp add: eval_defs live_world_def)

text \<open>
  Claim C1, amended: take any sequence of pages in which every page but the last ends on a
  seal (its working list is empty or its last asset seals an archive, so that the flush at
  the end of the page finds the accumulator empty); a single page always qualifies. Then for
  every threshold and all sizes, known or not, the sizes of the returned archives sum to the
  sizes of the pages' assets plus the sizes of the motion assets fetched for each page's
  live photos, \<open>totalSize\<close> is that sum, and the \<open>assetIds\<close> of the archives, one
  after the other, are, page by page, the ids of the page's assets followed by the ids of
  the motion assets fetched for that page, each occurrence once and in order. When no asset
  carries a non-empty \<open>livePhotoVideoId\<close>, these are the sizes and the ids of the input
  itself.
\<close>

theorem C1_totals_with_motion:
  assumes "getDownloadAssets w authUser dto = (evs, Inr src)"
    and "\<forall>pg \<in> set (butlast (produce w src)). ends_on_seal (targetSize_of dto) (spec_working w (snd pg))"
  shows "\<exists>r. snd (getDownloadInfo w authUser dto) = Inr r
     \<and> sum_list (map size' (archives r))
         = sum_list (map file_size (concat (map (\<lambda>pg. spec_working w (snd pg)) (produce w src))))
     \<and> totalSize r
         = sum_list (map file_size (concat (map (\<lambda>pg. spec_working w (snd pg)) (produce w src))))
     \<and> concat (map assetIds (archives r))
         = map id' (concat (map (\<lambda>pg. spec_working w (snd pg)) (produce w src)))
     \<and> ((\<forall>pg \<in> set (produce w src). spec_motion_ids (snd pg) = []) \<longrightarrow>
           sum_list (map size' (archives r)) = sum_list (map file_size (concat (map snd (produce w src))))
         \<and> concat (map assetIds (archives r)) = map id' (concat (map snd (produce w src))))"
proof -
  let ?T = "targetSize_of dto"
  let ?r = "response (for_await w ?T (produce w src) (init_state evs))"
  let ?f = "\<lambda>pg. spec_working w (snd pg)"
  note a = flush_free_archives [OF assms]
  have s: "sum_list (map size' (archives ?r)) = sum_list (map file_size (concat (map ?f (produce w src))))"
    unfolding a(2) by (rule plan_sizes)
  have t: "totalSize ?r = sum_list (map file_size (concat (map ?f (produce w src))))"
    unfolding a(3) by (rule plan_sizes)
  have i: "concat (map assetIds (archives ?r)) = map id' (concat (map ?f (produce w src)))"
    unfolding a(2) by (rule plan_ids)
  have p: "map ?f (produce w src) = map snd (produce w src)"
    if "\<forall>pg \<in> set (produce w src). spec_motion_ids (snd pg) = []"
    using that by (simp add: spec_working_plain)
  have plain: "(\<forall>pg \<in> set (produce w src). spec_motion_ids (snd pg) = []) \<longrightarrow>
           sum_list (map size' (archives ?r)) = sum_list (map file_size (concat (map snd (produce w src))))
         \<and> concat (map assetIds (archives ?r)) = map id' (concat (map snd (produce w src)))"
  proof (intro impI conjI)
    assume h: "\<forall>pg \<in> set (produce w src). spec_motion_ids (snd pg) = []"
    show "sum_list (map size' (archives ?r)) = sum_list (map file_size (concat (map snd (produce w src))))"
      unfolding s p [OF h] ..
    show "concat (map assetIds (archives ?r)) = map id' (concat (map snd (produce w src)))"
      unfolding i p [OF h] ..
  qed
  show ?thesis
    by (intro exI [of _ ?r] conjI a(1) s t i plain)
qed

text \<open>
  The album of the photo \<open>p\<close> and the asset \<open>b\<close> with threshold 2: the first page
  seals \<open>p\<close> and then its motion part \<open>m\<close>, the second page leaves \<open>b\<close> to the
  final flush.
\<close>

theorem C1_totals_with_motion_witness:
  "getDownloadAssets live_album_world owner (by_album ''album'' (Some 2)) =
     ([RequirePermission ''owner'' ALBUM_DOWNLOAD [''album'']], Inr (AlbumPagination ''album''))
   \<and> map snd (produce live_album_world (AlbumPagination ''album'')) =
       [[sample_asset ''p'' ''IMG_1'' 10 (Some ''m'')], [sample_asset ''b'' ''IMG_2'' 2 None]]
   \<and> spec_working live_album_world [sample_asset ''p'' ''IMG_1'' 10 (Some ''m'')] =
       [sample_asset ''p'' ''IMG_1'' 10 (Some ''m''), sample_asset ''m'' ''IMG_1'' 3 None]
   \<and> ends_on_seal 2 [sample_asset ''p'' ''IMG_1'' 10 (Some ''m''), sample_asset ''m'' ''IMG_1'' 3 None]
   \<and> (\<exists>r. snd (getDownloadInfo live_album_world owner (by_album ''album'' (Some 2))) = Inr r
        \<and> sum_list (map size' (archives r)) = 15 \<and> totalSize r = 15
        \<and> concat (map assetIds (archives r)) = [''p'', ''m'', ''b''])"
proof -
  let ?w = live_album_world
  let ?dto = "by_album ''album'' (Some 2)"
  let ?p = "sample_asset ''p'' ''IMG_1'' 10 (Some ''m'')"
  let ?m = "sample_asset ''m'' ''IMG_1'' 3 None"
  let ?b = "sample_asset ''b'' ''IMG_2'' 2 None"
  have a: "getDownloadAssets ?w owner ?dto =
     ([RequirePermission ''owner'' ALBUM_DOWNLOAD [''album'']], Inr (AlbumPagination ''album''))"
    by (simp add: getDownloadAssets_def by_album_def live_album_world_def sample_world_def owner_def
        truthy_def Let_def)
  have pr: "produce ?w (AlbumPagination ''album'') =
      [([GetByAlbumId 2500 0 ''album''], [?p]), ([GetByAlbumId 2500 2500 ''album''], [?b])]"
    by (simp add: live_album_world_def sample_world_def PAGINATION_SIZE_def)
  have T: "targetSize_of ?dto = 2" by (simp add: targetSize_of_def by_album_def)
  have wp: "spec_working ?w [?p] = [?p, ?m]"
    by (simp add: spec_working_def spec_motion_ids_def map_filter_simps sample_asset_def
        live_album_world_def sample_world_def)
  have wb: "spec_working ?w [?b] = [?b]"
    by (simp add: spec_working_def spec_motion_ids_def map_filter_simps sample_asset_def)
  have e: "ends_on_seal 2 [?p, ?m]"
    by (simp add: ends_on_seal_def sample_asset_def file_size_def)
  have h: "\<forall>pg \<in> set (butlast (produce ?w (AlbumPagination ''album''))).
      ends_on_seal (targetSize_of ?dto) (spec_working ?w (snd pg))"
    unfolding pr T using e by (simp add: wp)
  have v: "sum_list (map file_size [?p, ?m, ?b]) = 15" "map id' [?p, ?m, ?b] = [''p'', ''m'', ''b'']"
    by (simp_all add: sample_asset_def file_size_def)
  have c: "concat (map (\<lambda>pg. spec_working ?w (snd pg)) (produce ?w (AlbumPagination ''album'')))
      = [?p, ?m, ?b]"
    unfolding pr by (simp add: wp wb)
  from C1_totals_with_motion [OF a h] obtain r
    where r: "snd (getDownloadInfo ?w owner ?dto) = Inr r"
      "sum_list (map size' (archives r)) = 15" "totalSize r = 15"
      "concat (map assetIds (archives r)) = [''p'', ''m'', ''b'']"
    unfolding c v by blast
  have m: "map snd (produce ?w (AlbumPagination ''album'')) = [[?p], [?b]]"
    unfolding pr by simp
  show ?thesis
    using a m wp e r by (intro conjI exI [of _ r])
qed

lemma motionIds_of_numbered: "motionIds_of (map numbered xs) = []"
  by (induction xs) (simp_all add: motionIds_of_def numbered_def sample_asset_def truthy_def)

lemma with_motion_numbered: "with_motion w (map numbered xs) = map numbered xs"
  by (simp add: with_motion_def motionIds_of_numbered)

lemma file_size_numbered: "sum_list (map file_size (map numbered xs)) = int (length xs)"
  by (induction xs) (simp_all add: numbered_def sample_asset_def file_size_def)

lemma id_numbered: "map id' (map numbered xs) = map string_of_nat xs"
  by (simp add: numbered_def sample_asset_def)

lemma album_world_run:
  "getDownloadAssets (album_world n) owner (by_album ''album'' T) =
     ([RequirePermission ''owner'' ALBUM_DOWNLOAD [''album'']], Inr (AlbumPagination ''album''))"
  "produce (album_world n) (AlbumPagination ''album'') =
     [([GetByAlbumId 2500 0 ''album''], map numbered [0..<n]),
      ([GetByAlbumId 2500 2500 ''album''], map numbered [n])]"
  by (simp_all add: getDownloadAssets_def by_album_def album_world_def sample_world_def owner_def
      truthy_def PAGINATION_SIZE_def Let_def)

lemma album_two_pages:
  assumes "0 < n" and "int n + 1 \<le> GiB * 4"
  shows "snd (getDownloadInfo (album_world n) owner (by_album ''album'' None)) =
     Inr \<lparr>totalSize = 2 * (int n + 1),
          archives = [\<lparr>size' = int n + 1, assetIds = map string_of_nat [0..<Suc n]\<rparr>,
                      \<lparr>size' = int n + 1, assetIds = map string_of_nat [0..<Suc n]\<rparr>]\<rparr>"
proof -
  let ?w = "album_world n"
  let ?pg1 = "([GetByAlbumId 2500 0 ''album''], map numbered [0..<n])"
  let ?pg2 = "([GetByAlbumId 2500 2500 ''album''], map numbered [n])"
  let ?evs = "[RequirePermission ''owner'' ALBUM_DOWNLOAD [''album'']]"
  have T: "targetSize_of (by_album ''album'' None) = GiB * 4"
    by (simp add: targetSize_of_def by_album_def)
  have all: "with_motion ?w (snd ?pg1) @ with_motion ?w (snd ?pg2) = map numbered [0..<Suc n]"
  proof -
    have "map numbered [0..<Suc n] = map numbered [0..<n] @ map numbered [n]" by simp
    then show ?thesis unfolding snd_conv with_motion_numbered by simp
  qed
  have fits: "sum_list (map file_size (with_motion ?w (snd ?pg1) @ with_motion ?w (snd ?pg2))) \<le> GiB * 4"
    unfolding all file_size_numbered using assms(2) by simp
  have ne: "with_motion ?w (snd ?pg1) \<noteq> []"
    using assms(1) by (simp add: with_motion_numbered)
  have d: "deref (for_await ?w (GiB * 4) [?pg1, ?pg2] (init_state ?evs)) =
      [\<lparr>size' = int n + 1, assetIds = map string_of_nat [0..<Suc n]\<rparr>,
       \<lparr>size' = int n + 1, assetIds = map string_of_nat [0..<Suc n]\<rparr>]"
    unfolding two_pages_alias [OF fits ne] all file_size_numbered id_numbered by simp
  have "snd (getDownloadInfo ?w owner (by_album ''album'' None)) =
      Inr (response (for_await ?w (GiB * 4) [?pg1, ?pg2] (init_state ?evs)))"
    using getDownloadInfo_run [OF album_world_run(1), of n None]
    unfolding album_world_run(2) T by (simp only: snd_conv)
  moreover have "response (for_await ?w (GiB * 4) [?pg1, ?pg2] (init_state ?evs)) =
      \<lparr>totalSize = 2 * (int n + 1),
       archives = [\<lparr>size' = int n + 1, assetIds = map string_of_nat [0..<Suc n]\<rparr>,
                   \<lparr>size' = int n + 1, assetIds = map string_of_nat [0..<Suc n]\<rparr>]\<rparr>"
    using d deref_response [of "for_await ?w (GiB * 4) [?pg1, ?pg2] (init_state ?evs)"]
      totalSize_response [of "for_await ?w (GiB * 4) [?pg1, ?pg2] (init_state ?evs)"]
    by (cases "response (for_await ?w (GiB * 4) [?pg1, ?pg2] (init_state ?evs))") simp
  ultimately show ?thesis by simp
qed

text \<open>
  Claim C2 at an album of 2501 assets of one byte each, planned with the default threshold
  of 4 GiB: the store hands them out as a page of 2500 and a page of one. The archive pushed
  at the end of the first page is pushed again at the end of the second, so the result
  holds the same archive of 2501 bytes twice; the first of the two is not the last archive
  and its size does not exceed the threshold.
\<close>

theorem C2_album_of_2501:
  "snd (getDownloadInfo (album_world PAGINATION_SIZE) owner (by_album ''album'' None)) =
     Inr \<lparr>totalSize = 5002,
          archives = [\<lparr>size' = 2501, assetIds = map string_of_nat [0..<2501]\<rparr>,
                      \<lparr>size' = 2501, assetIds = map string_of_nat [0..<2501]\<rparr>]\<rparr>
   \<and> \<not> 2501 > targetSize_of (by_album ''album'' None)"
proof -
  have p: "0 < PAGINATION_SIZE" and f: "int PAGINATION_SIZE + 1 \<le> GiB * 4"
    by (simp_all add: PAGINATION_SIZE_def GiB_def)
  have n: "int PAGINATION_SIZE + 1 = 2501" "2 * (int PAGINATION_SIZE + 1) = 5002"
      "Suc PAGINATION_SIZE = 2501"
    by (simp_all add: PAGINATION_SIZE_def)
  have e: "(2::int) * 2501 = 5002" by simp
  have "\<not> 2501 > targetSize_of (by_album ''album'' None)"
    by (simp add: targetSize_of_def by_album_def GiB_def)
  then show ?thesis
    using album_two_pages [OF p f] unfolding n e by (intro conjI)
qed

text \<open>
  Claim C3, as stated, fails when the still photo alone exceeds the threshold: with
  threshold 5 the photo \<open>p\<close> of 10 bytes seals the first archive, and its motion part
  \<open>m\<close>, appended to the end of the page, lands in the second.
\<close>

theorem C3_counterexample_split_pair:
  "livePhotoVideoId (hd (getByIds live_world [''p''])) = Some ''m''
   \<and> snd (getDownloadInfo live_world owner (by_ids [''p''] (Some 5))) =
       Inr \<lparr>totalSize = 13,
            archives = [\<lparr>size' = 10, assetIds = [''p'']\<rparr>, \<lparr>size' = 3, assetIds = [''m'']\<rparr>]\<rparr>"
  by (simp add: eval_defs live_world_def)

text \<open>
  Claim C3, amended: take any sequence of pages in which every page but the last ends on a
  seal, a page of it, an asset at position \<open>i\<close> of that page with a non-empty
  \<open>livePhotoVideoId\<close>, and the motion asset with that id at position \<open>j\<close> of what the
  lookup for the page returns. The motion asset is packed after all the assets of the page:
  with \<open>off\<close> ids contributed by the earlier pages, the photo's id is the id number
  \<open>off + i\<close> of the plan and the motion asset's id the id number
  \<open>off + length page + j\<close>. The two lie in the same archive exactly when none of the
  assets from the photo up to the one before the motion asset seals an archive; a seal in
  between puts the motion asset into a later archive.
\<close>

theorem C3_pair_shares_archive_iff:
  assumes "getDownloadAssets w authUser dto = (evs, Inr src)"
    and "\<forall>pg \<in> set (butlast (produce w src)). ends_on_seal (targetSize_of dto) (spec_working w (snd pg))"
    and "q < length (produce w src)" and "page = snd (produce w src ! q)"
    and "i < length page" and "livePhotoVideoId (page ! i) = Some m" and "m \<noteq> []"
    and "j < length (getByIds w (spec_motion_ids page))"
    and "id' (getByIds w (spec_motion_ids page) ! j) = m"
    and "off = length (concat (map (\<lambda>pg. spec_working w (snd pg)) (take q (produce w src))))"
  shows "\<exists>r. snd (getDownloadInfo w authUser dto) = Inr r
     \<and> concat (map assetIds (archives r))
         = map id' (concat (map (\<lambda>pg. spec_working w (snd pg)) (produce w src)))
     \<and> spec_working w page = page @ getByIds w (spec_motion_ids page)
     \<and> off + length page + j < length (concat (map assetIds (archives r)))
     \<and> concat (map assetIds (archives r)) ! (off + i) = id' (page ! i)
     \<and> concat (map assetIds (archives r)) ! (off + length page + j) = m
     \<and> (locate (map assetIds (archives r)) (off + i)
           = locate (map assetIds (archives r)) (off + length page + j)
         \<longleftrightarrow> (\<forall>k. i \<le> k \<and> k < length page + j \<longrightarrow>
                \<not> seals (targetSize_of dto) 0 (spec_working w page) ! k))"
proof -
  let ?T = "targetSize_of dto"
  let ?pgs = "produce w src"
  let ?r = "response (for_await w ?T ?pgs (init_state evs))"
  let ?f = "\<lambda>pg. spec_working w (snd pg)"
  let ?plan = "\<lambda>pg. page_plan ?T fresh (spec_working w (snd pg))"
  let ?fetched = "getByIds w (spec_motion_ids page)"
  let ?W = "spec_working w page"
  let ?B = "concat (map ?plan (take q ?pgs))"
  let ?G = "page_plan ?T fresh ?W"
  let ?C = "concat (map ?plan (drop (Suc q) ?pgs))"
  note a = flush_free_archives [OF assms(1,2)]
  have ids: "concat (map assetIds (archives ?r)) = map id' (concat (map ?f ?pgs))"
    unfolding a(2) by (rule plan_ids)
  have "page ! i \<in> set page" using assms(5) by simp
  then have "m \<in> set (spec_motion_ids page)"
    using assms(6,7) by (rule spec_motion_ids_member)
  then have W: "?W = page @ ?fetched" by (auto simp: spec_working_def)
  have split: "?pgs = take q ?pgs @ (?pgs ! q) # drop (Suc q) ?pgs"
    using assms(3) by (rule id_take_nth_drop)
  have all: "concat (map ?f ?pgs) = concat (map ?f (take q ?pgs)) @ ?W @ concat (map ?f (drop (Suc q) ?pgs))"
    by (subst split) (simp add: assms(4))
  have arch: "archives ?r = ?B @ ?G @ ?C"
    unfolding a(2) by (subst split) (simp add: assms(4))
  have lenB: "length (concat (map assetIds ?B)) = off"
    unfolding assms(10) plan_ids by simp
  have lenG: "length (concat (map assetIds ?G)) = length ?W"
    by (simp add: page_plan_ids fresh_def)
  have nth: "concat (map assetIds (archives ?r)) ! (off + k) = id' (?W ! k)" if "k < length ?W" for k
    unfolding ids all using that by (simp add: assms(10) nth_append)
  have loc: "locate (map assetIds (archives ?r)) (off + k)
      = length ?B + length (filter (\<lambda>b. b) (take k (seals ?T 0 ?W)))" if "k < length ?W" for k
  proof -
    have "locate (map assetIds (archives ?r)) (off + k)
        = locate (map assetIds ?B @ (map assetIds ?G @ map assetIds ?C)) (length (concat (map assetIds ?B)) + k)"
      unfolding arch lenB by simp
    also have "\<dots> = length (map assetIds ?B) + locate (map assetIds ?G @ map assetIds ?C) k"
      by (rule locate_append_right)
    also have "locate (map assetIds ?G @ map assetIds ?C) k = locate (map assetIds ?G) k"
      using that by (intro locate_append_left) (simp add: lenG)
    also have "locate (map assetIds ?G) k = length (filter (\<lambda>b. b) (take k (seals ?T 0 ?W)))"
      using locate_page_plan [OF that, of ?T fresh] by (simp add: fresh_def)
    finally show ?thesis by simp
  qed
  have i: "i < length ?W" and j: "length page + j < length ?W"
    using assms(5,8) by (simp_all add: W)
  have 1: "off + length page + j < length (concat (map assetIds (archives ?r)))"
    unfolding ids all using j by (simp add: assms(10))
  have 2: "concat (map assetIds (archives ?r)) ! (off + i) = id' (page ! i)"
    using nth [OF i] assms(5) by (simp add: W nth_append)
  have 3: "concat (map assetIds (archives ?r)) ! (off + length page + j) = m"
    using nth [OF j] assms(9) by (simp add: W add.assoc)
  have 4: "locate (map assetIds (archives ?r)) (off + i)
           = locate (map assetIds (archives ?r)) (off + length page + j)
         \<longleftrightarrow> (\<forall>k. i \<le> k \<and> k < length page + j \<longrightarrow> \<not> seals ?T 0 ?W ! k)"
  proof -
    have le: "i \<le> length page + j" using assms(5) by simp
    have bound: "length page + j \<le> length (seals ?T 0 ?W)" using j by (simp add: length_seals)
    show ?thesis
      using loc [OF i] loc [OF j] count_take_eq [OF le bound] by (simp add: add.assoc)
  qed
  show ?thesis
    by (intro exI [of _ ?r] conjI a(1) ids W 1 2 3 4)
qed

text \<open>
  The album of \<open>a\<close>, \<open>x\<close> and the photo \<open>p\<close> with threshold 5: the first page ends
  on the seal of \<open>a\<close>; in the second page \<open>x\<close> seals the second archive, and the photo
  \<open>p\<close> after it and its motion part \<open>m\<close> seal nothing and share the third archive,
  although the page as a whole exceeds the threshold.
\<close>

theorem C3_pair_shares_archive_iff_witness:
  "getDownloadAssets pair_world owner (by_album ''album'' (Some 5)) =
     ([RequirePermission ''owner'' ALBUM_DOWNLOAD [''album'']], Inr (AlbumPagination ''album''))
   \<and> map snd (produce pair_world (AlbumPagination ''album'')) =
       [[sample_asset ''a'' ''IMG_a'' 10 None],
        [sample_asset ''x'' ''IMG_0'' 10 None, sample_asset ''p'' ''IMG_1'' 2 (Some ''m'')]]
   \<and> ends_on_seal (targetSize_of (by_album ''album'' (Some 5)))
        (spec_working pair_world [sample_asset ''a'' ''IMG_a'' 10 None])
   \<and> livePhotoVideoId ([sample_asset ''x'' ''IMG_0'' 10 None, sample_asset ''p'' ''IMG_1'' 2 (Some ''m'')] ! 1)
       = Some ''m''
   \<and> getByIds pair_world
        (spec_motion_ids [sample_asset ''x'' ''IMG_0'' 10 None, sample_asset ''p'' ''IMG_1'' 2 (Some ''m'')])
       = [sample_asset ''m'' ''IMG_1'' 2 None]
   \<and> seals (targetSize_of (by_album ''album'' (Some 5))) 0
        [sample_asset ''x'' ''IMG_0'' 10 None, sample_asset ''p'' ''IMG_1'' 2 (Some ''m''),
         sample_asset ''m'' ''IMG_1'' 2 None] = [True, False, False]
   \<and> snd (getDownloadInfo pair_world owner (by_album ''album'' (Some 5))) =
       Inr \<lparr>totalSize = 24,
            archives = [\<lparr>size' = 10, assetIds = [''a'']\<rparr>, \<lparr>size' = 10, assetIds = [''x'']\<rparr>,
                        \<lparr>size' = 4, assetIds = [''p'', ''m'']\<rparr>]\<rparr>
   \<and> locate [[''a''], [''x''], [''p'', ''m'']] 2 = locate [[''a''], [''x''], [''p'', ''m'']] 3"
proof -
  let ?w = pair_world
  let ?dto = "by_album ''album'' (Some 5)"
  let ?a = "sample_asset ''a'' ''IMG_a'' 10 None"
  let ?x = "sample_asset ''x'' ''IMG_0'' 10 None"
  let ?p = "sample_asset ''p'' ''IMG_1'' 2 (Some ''m'')"
  let ?m = "sample_asset ''m'' ''IMG_1'' 2 None"
  let ?src = "AlbumPagination ''album''"
  have a: "getDownloadAssets ?w owner ?dto =
     ([RequirePermission ''owner'' ALBUM_DOWNLOAD [''album'']], Inr ?src)"
    by (simp add: getDownloadAssets_def by_album_def pair_world_def sample_world_def owner_def
        truthy_def Let_def)
  have pr: "produce ?w ?src =
      [([GetByAlbumId 2500 0 ''album''], [?a]), ([GetByAlbumId 2500 2500 ''album''], [?x, ?p])]"
    by (simp add: pair_world_def sample_world_def PAGINATION_SIZE_def)
  have T: "targetSize_of ?dto = 5" by (simp add: targetSize_of_def by_album_def)
  have wa: "spec_working ?w [?a] = [?a]"
    by (simp add: spec_working_def spec_motion_ids_def map_filter_simps sample_asset_def)
  have e: "ends_on_seal (targetSize_of ?dto) (spec_working ?w [?a])"
    unfolding T wa by (simp add: ends_on_seal_def sample_asset_def file_size_def)
  have h: "\<forall>pg \<in> set (butlast (produce ?w ?src)).
      ends_on_seal (targetSize_of ?dto) (spec_working ?w (snd pg))"
    unfolding pr using e by simp
  have q: "1 < length (produce ?w ?src)" unfolding pr by simp
  have pg: "[?x, ?p] = snd (produce ?w ?src ! 1)" unfolding pr by simp
  have i: "1 < length [?x, ?p]" by simp
  have l: "livePhotoVideoId ([?x, ?p] ! 1) = Some ''m''" by (simp add: sample_asset_def)
  have ne: "''m'' \<noteq> []" by simp
  have mi: "spec_motion_ids [?x, ?p] = [''m'']"
    by (simp add: spec_motion_ids_def map_filter_simps sample_asset_def)
  have g': "getByIds ?w [''m''] = [?m]"
    by (simp add: pair_world_def sample_world_def)
  have g: "getByIds ?w (spec_motion_ids [?x, ?p]) = [?m]"
    unfolding mi by (rule g')
  have j: "0 < length (getByIds ?w (spec_motion_ids [?x, ?p]))" unfolding g by simp
  have im: "id' (getByIds ?w (spec_motion_ids [?x, ?p]) ! 0) = ''m''"
    unfolding g by (simp add: sample_asset_def)
  have off: "1 = length (concat (map (\<lambda>pg. spec_working ?w (snd pg)) (take 1 (produce ?w ?src))))"
    unfolding pr by (simp add: wa)
  have s: "seals (targetSize_of ?dto) 0 [?x, ?p, ?m] = [True, False, False]"
    unfolding T by (simp add: sample_asset_def file_size_def)
  have W: "spec_working ?w [?x, ?p] = [?x, ?p, ?m]"
    by (simp add: spec_working_def mi g')
  have no_seal: "\<forall>k. 1 \<le> k \<and> k < length [?x, ?p] + 0 \<longrightarrow>
      \<not> seals (targetSize_of ?dto) 0 (spec_working ?w [?x, ?p]) ! k"
  proof (intro allI impI)
    fix k :: nat assume "1 \<le> k \<and> k < length [?x, ?p] + 0"
    then have "k = 1" by simp
    then show "\<not> seals (targetSize_of ?dto) 0 (spec_working ?w [?x, ?p]) ! k"
      unfolding W s by simp
  qed
  from C3_pair_shares_archive_iff [OF a h q pg i l ne j im off] no_seal obtain r
    where r: "snd (getDownloadInfo ?w owner ?dto) = Inr r"
      "concat (map assetIds (archives r))
         = map id' (concat (map (\<lambda>pg. spec_working ?w (snd pg)) (produce ?w ?src)))"
      "locate (map assetIds (archives r)) (1 + 1) = locate (map assetIds (archives r)) (1 + length [?x, ?p] + 0)"
    by blast
  have run: "snd (getDownloadInfo ?w owner ?dto) =
       Inr \<lparr>totalSize = 24,
            archives = [\<lparr>size' = 10, assetIds = [''a'']\<rparr>, \<lparr>size' = 10, assetIds = [''x'']\<rparr>,
                        \<lparr>size' = 4, assetIds = [''p'', ''m'']\<rparr>]\<rparr>"
    by code_simp
  from r(1) run have "archives r = [\<lparr>size' = 10, assetIds = [''a'']\<rparr>, \<lparr>size' = 10, assetIds = [''x'']\<rparr>,
                        \<lparr>size' = 4, assetIds = [''p'', ''m'']\<rparr>]"
    by auto
  with r(3) have lo: "locate [[''a''], [''x''], [''p'', ''m'']] 2 = locate [[''a''], [''x''], [''p'', ''m'']] 3"
    by simp
  have m: "map snd (produce ?w ?src) = [[?a], [?x, ?p]]" unfolding pr by simp
  show ?thesis
    using a m e l g s run lo by (intro conjI)
qed

text \<open>
  Claim C4, as stated, fails at the threshold 0: the size 0 is falsy, so the default of
  4 GiB replaces it and the three assets of 1, 2 and 3 bytes share one archive.
\<close>

theorem C4_counterexample_threshold_zero:
  "snd (getDownloadInfo plain_world owner (by_ids [''a'', ''b'', ''c''] (Some 0))) =
     Inr \<lparr>totalSize = 6, archives = [\<lparr>size' = 6, assetIds = [''a'', ''b'', ''c'']\<rparr>]\<rparr>"
  by (simp add: eval_defs plain_world_def)

text \<open>
  Claim C4, amended: for every caller-supplied threshold below 0 and every sequence of
  pages, each asset of each page, and each motion asset fetched for a page, is sealed in an
  archive of its own, in order. The threshold 0 is taken as absent and replaced by the
  default of 4 GiB.
\<close>

theorem C4_negative_threshold:
  assumes "archiveSize dto = Some T" and "T < 0"
    and "getDownloadAssets w authUser dto = (evs, Inr src)"
  shows "\<exists>r. snd (getDownloadInfo w authUser dto) = Inr r
     \<and> archives r = map (\<lambda>a. \<lparr>size' = file_size a, assetIds = [id' a]\<rparr>)
                       (concat (map (\<lambda>pg. with_motion w (snd pg)) (produce w src)))
     \<and> targetSize_of (dto\<lparr>archiveSize := Some 0\<rparr>) = GiB * 4"
proof -
  have T: "targetSize_of dto = T" using assms(1,2) by (simp add: targetSize_of_def)
  let ?s = "for_await w T (produce w src) (init_state evs)"
  have run: "snd (getDownloadInfo w authUser dto) = Inr (response ?s)"
    using getDownloadInfo_run [OF assms(3)] T by simp
  have "heap (init_state evs) ! archive_var (init_state evs) = fresh"
    by (simp add: init_state_def)
  from for_await_negative [OF assms(2) unaliased_init this, of w "produce w src"]
  have "archives (response ?s) = map single (concat (map (\<lambda>pg. with_motion w (snd pg)) (produce w src)))"
    unfolding deref_response by (simp add: deref_def init_state_def)
  then show ?thesis using run by (simp add: single_def targetSize_of_def)
qed

theorem C4_negative_threshold_witness:
  "archiveSize (by_album ''album'' (Some (- 1))) = Some (- 1) \<and> (- 1 :: int) < 0
   \<and> getDownloadAssets (album_world 1) owner (by_album ''album'' (Some (- 1))) =
       ([RequirePermission ''owner'' ALBUM_DOWNLOAD [''album'']], Inr (AlbumPagination ''album''))
   \<and> archives (projr (snd (getDownloadInfo (album_world 1) owner (by_album ''album'' (Some (- 1)))))) =
       [\<lparr>size' = 1, assetIds = [''0'']\<rparr>, \<lparr>size' = 1, assetIds = [''1'']\<rparr>]"
proof -
  let ?dto = "by_album ''album'' (Some (- 1))"
  have s: "archiveSize ?dto = Some (- 1)" by (simp add: by_album_def)
  have n: "(- 1 :: int) < 0" by simp
  have pr: "concat (map (\<lambda>pg. with_motion (album_world 1) (snd pg))
                 (produce (album_world 1) (AlbumPagination ''album''))) = [numbered 0, numbered 1]"
    unfolding album_world_run(2)
    by (simp add: with_motion_def motionIds_of_def numbered_def sample_asset_def truthy_def)
  have v: "map (\<lambda>a. \<lparr>size' = file_size a, assetIds = [id' a]\<rparr>) [numbered 0, numbered 1] =
      [\<lparr>size' = 1, assetIds = [''0'']\<rparr>, \<lparr>size' = 1, assetIds = [''1'']\<rparr>]"
    by (simp add: numbered_def sample_asset_def file_size_def string_of_nat_0 string_of_nat_1)
  have a: "getDownloadAssets (album_world 1) owner ?dto =
       ([RequirePermission ''owner'' ALBUM_DOWNLOAD [''album'']], Inr (AlbumPagination ''album''))"
    by (rule album_world_run(1))
  from C4_negative_threshold [OF s n a] obtain r
    where r: "snd (getDownloadInfo (album_world 1) owner ?dto) = Inr r"
      "archives r = map (\<lambda>a. \<lparr>size' = file_size a, assetIds = [id' a]\<rparr>)
                       (concat (map (\<lambda>pg. with_motion (album_world 1) (snd pg))
                          (produce (album_world 1) (AlbumPagination ''album''))))"
    by blast
  have "archives r = [\<lparr>size' = 1, assetIds = [''0'']\<rparr>, \<lparr>size' = 1, assetIds = [''1'']\<rparr>]"
    using r(2) unfolding pr v .
  then show ?thesis using s a r(1) by simp
qed

text \<open>
  Claim C10: for every input, every archive of the returned \<open>archives\<close> sequence has a
  non-empty \<open>assetIds\<close> sequence.
\<close>

theorem C10_no_empty_archive:
  assumes "snd (getDownloadInfo w authUser dto) = Inr r" and "a \<in> set (archives r)"
  shows "assetIds a \<noteq> []"
proof (cases "getDownloadAssets w authUser dto")
  case (Pair evs res)
  show ?thesis
  proof (cases res)
    case (Inl e)
    with Pair assms(1) show ?thesis by (simp add: getDownloadInfo_def)
  next
    case (Inr src)
    let ?s = "for_await w (targetSize_of dto) (produce w src) (init_state evs)"
    have "r = response ?s"
      using getDownloadInfo_run [of w authUser dto evs src] Pair Inr assms(1) by simp
    then have "a \<in> set (deref ?s)" using assms(2) by (simp add: deref_response)
    moreover have "pushed_nonempty ?s" by (intro for_await_nonempty init_nonempty)
    ultimately show ?thesis by (auto simp: deref_def pushed_nonempty_def)
  qed
qed

theorem C10_no_empty_archive_witness:
  "snd (getDownloadInfo (album_world 1) owner (by_album ''album'' None)) =
     Inr \<lparr>totalSize = 4, archives = [\<lparr>size' = 2, assetIds = [''0'', ''1'']\<rparr>,
                                      \<lparr>size' = 2, assetIds = [''0'', ''1'']\<rparr>]\<rparr>
   \<and> \<lparr>size' = 2, assetIds = [''0'', ''1'']\<rparr>
        \<in> set (archives \<lparr>totalSize = 4, archives = [\<lparr>size' = 2, assetIds = [''0'', ''1'']\<rparr>,
                                                     \<lparr>size' = 2, assetIds = [''0'', ''1'']\<rparr>]\<rparr>)
   \<and> assetIds \<lparr>size' = 2, assetIds = [''0'', ''1'']\<rparr> \<noteq> []"
proof -
  have r: "snd (getDownloadInfo (album_world 1) owner (by_album ''album'' None)) =
     Inr \<lparr>totalSize = 4, archives = [\<lparr>size' = 2, assetIds = [''0'', ''1'']\<rparr>,
                                      \<lparr>size' = 2, assetIds = [''0'', ''1'']\<rparr>]\<rparr>"
    using album_two_pages [of 1] by (simp add: GiB_def string_of_nat_0 string_of_nat_1)
  have m: "\<lparr>size' = 2, assetIds = [''0'', ''1'']\<rparr>
        \<in> set (archives \<lparr>totalSize = 4, archives = [\<lparr>size' = 2, assetIds = [''0'', ''1'']\<rparr>,
                                                     \<lparr>size' = 2, assetIds = [''0'', ''1'']\<rparr>]\<rparr>)"
    by simp
  show ?thesis using C10_no_empty_archive [OF r m] r m by simp
qed

section \<open>The claim about getDownloadAssets\<close>

lemma checked_granted:
  assumes "getDownloadAssets w authUser dto = (RequirePermission uid p t # es, Inr src)"
    and "hasPermission w uid p t" and "filter is_access_check es = []"
  shows "checked_once_first w uid p t (getDownloadInfo w authUser dto)"
  using assms(2,3) produce_no_check [of w src]
  by (simp add: getDownloadInfo_run [OF assms(1)] checked_once_first_def)

lemma checked_denied:
  assumes "getDownloadAssets w authUser dto = ([RequirePermission uid p t], Inl AccessDenied)"
  shows "checked_once_first w uid p t (getDownloadInfo w authUser dto)"
  using assms by (simp add: getDownloadInfo_def checked_once_first_def is_access_check_def)

text \<open>
  Claim C5: a call in which none of \<open>assetIds\<close>, \<open>albumId\<close>, \<open>userId\<close> is supplied
  fails with the bad-request error, and no collaborator has been called. Otherwise the mode
  is chosen in the order explicit ids, album, owner, whatever else is supplied; the access
  check of that mode is the first call, it is the only access check of the whole operation,
  and when the gate rejects nothing follows it. An identifier counts as supplied as the code
  tests it: an id list that is present, a string that is present and not empty.
\<close>

theorem C5_selection_and_access:
  "(dto_assetIds dto = None \<and> \<not> truthy (albumId dto) \<and> \<not> truthy (userId dto) \<longrightarrow>
      getDownloadInfo w authUser dto =
        ([], Inl (BadRequestException ''assetIds, albumId, or userId is required'')))
   \<and> (\<forall>ids. dto_assetIds dto = Some ids \<longrightarrow>
         checked_once_first w (auth_id authUser) ASSET_DOWNLOAD ids (getDownloadInfo w authUser dto)
       \<and> (hasPermission w (auth_id authUser) ASSET_DOWNLOAD ids \<longrightarrow>
            snd (getDownloadAssets w authUser dto) = Inr (Yield (getByIds w ids))))
   \<and> (\<forall>a. dto_assetIds dto = None \<and> albumId dto = Some a \<and> a \<noteq> [] \<longrightarrow>
         checked_once_first w (auth_id authUser) ALBUM_DOWNLOAD [a] (getDownloadInfo w authUser dto)
       \<and> (hasPermission w (auth_id authUser) ALBUM_DOWNLOAD [a] \<longrightarrow>
            snd (getDownloadAssets w authUser dto) = Inr (AlbumPagination a)))
   \<and> (\<forall>v. dto_assetIds dto = None \<and> \<not> truthy (albumId dto) \<and> userId dto = Some v \<and> v \<noteq> [] \<longrightarrow>
         checked_once_first w (auth_id authUser) LIBRARY_DOWNLOAD [v] (getDownloadInfo w authUser dto)
       \<and> (hasPermission w (auth_id authUser) LIBRARY_DOWNLOAD [v] \<longrightarrow>
            snd (getDownloadAssets w authUser dto) = Inr (UserPagination v)))"
proof (intro conjI allI impI)
  assume "dto_assetIds dto = None \<and> \<not> truthy (albumId dto) \<and> \<not> truthy (userId dto)"
  then show "getDownloadInfo w authUser dto =
      ([], Inl (BadRequestException ''assetIds, albumId, or userId is required''))"
    by (simp add: getDownloadInfo_def getDownloadAssets_def)
next
  fix ids assume s: "dto_assetIds dto = Some ids"
  show "checked_once_first w (auth_id authUser) ASSET_DOWNLOAD ids (getDownloadInfo w authUser dto)"
  proof (cases "hasPermission w (auth_id authUser) ASSET_DOWNLOAD ids")
    case True
    with s have "getDownloadAssets w authUser dto =
        (RequirePermission (auth_id authUser) ASSET_DOWNLOAD ids # [GetByIds ids], Inr (Yield (getByIds w ids)))"
      by (simp add: getDownloadAssets_def)
    then show ?thesis using True by (rule checked_granted) (simp add: is_access_check_def)
  next
    case False
    with s have "getDownloadAssets w authUser dto =
        ([RequirePermission (auth_id authUser) ASSET_DOWNLOAD ids], Inl AccessDenied)"
      by (simp add: getDownloadAssets_def)
    then show ?thesis by (rule checked_denied)
  qed
  assume "hasPermission w (auth_id authUser) ASSET_DOWNLOAD ids"
  with s show "snd (getDownloadAssets w authUser dto) = Inr (Yield (getByIds w ids))"
    by (simp add: getDownloadAssets_def)
next
  fix a assume s: "dto_assetIds dto = None \<and> albumId dto = Some a \<and> a \<noteq> []"
  show "checked_once_first w (auth_id authUser) ALBUM_DOWNLOAD [a] (getDownloadInfo w authUser dto)"
  proof (cases "hasPermission w (auth_id authUser) ALBUM_DOWNLOAD [a]")
    case True
    with s have "getDownloadAssets w authUser dto =
        (RequirePermission (auth_id authUser) ALBUM_DOWNLOAD [a] # [], Inr (AlbumPagination a))"
      by (simp add: getDownloadAssets_def truthy_def)
    then show ?thesis using True by (rule checked_granted) simp
  next
    case False
    with s have "getDownloadAssets w authUser dto =
        ([RequirePermission (auth_id authUser) ALBUM_DOWNLOAD [a]], Inl AccessDenied)"
      by (simp add: getDownloadAssets_def truthy_def)
    then show ?thesis by (rule checked_denied)
  qed
  assume "hasPermission w (auth_id authUser) ALBUM_DOWNLOAD [a]"
  with s show "snd (getDownloadAssets w authUser dto) = Inr (AlbumPagination a)"
    by (simp add: getDownloadAssets_def truthy_def)
next
  fix v assume s: "dto_assetIds dto = None \<and> \<not> truthy (albumId dto) \<and> userId dto = Some v \<and> v \<noteq> []"
  show "checked_once_first w (auth_id authUser) LIBRARY_DOWNLOAD [v] (getDownloadInfo w authUser dto)"
  proof (cases "hasPermission w (auth_id authUser) LIBRARY_DOWNLOAD [v]")
    case True
    with s have "getDownloadAssets w authUser dto =
        (RequirePermission (auth_id authUser) LIBRARY_DOWNLOAD [v] # [], Inr (UserPagination v))"
      by (simp add: getDownloadAssets_def truthy_def)
    then show ?thesis using True by (rule checked_granted) simp
  next
    case False
    with s have "getDownloadAssets w authUser dto =
        ([RequirePermission (auth_id authUser) LIBRARY_DOWNLOAD [v]], Inl AccessDenied)"
      by (simp add: getDownloadAssets_def truthy_def)
    then show ?thesis by (rule checked_denied)
  qed
  assume "hasPermission w (auth_id authUser) LIBRARY_DOWNLOAD [v]"
  with s show "snd (getDownloadAssets w authUser dto) = Inr (UserPagination v)"
    by (simp add: getDownloadAssets_def truthy_def)
qed

theorem C5_selection_and_access_witness:
  "getDownloadInfo (album_world 1) owner (request None None None) =
     ([], Inl (BadRequestException ''assetIds, albumId, or userId is required''))
   \<and> checked_once_first (album_world 1) ''owner'' ASSET_DOWNLOAD [''0'']
       (getDownloadInfo (album_world 1) owner (request (Some [''0'']) (Some ''album'') (Some ''owner'')))
   \<and> checked_once_first (album_world 1) ''owner'' ALBUM_DOWNLOAD [''album'']
       (getDownloadInfo (album_world 1) owner (request None (Some ''album'') (Some ''owner'')))
   \<and> checked_once_first (album_world 1) ''owner'' LIBRARY_DOWNLOAD [''owner'']
       (getDownloadInfo (album_world 1) owner (request None None (Some ''owner'')))
   \<and> \<not> hasPermission (album_world 1) ''stranger'' ALBUM_DOWNLOAD [''album'']
   \<and> getDownloadInfo (album_world 1) stranger (request None (Some ''album'') None) =
       ([RequirePermission ''stranger'' ALBUM_DOWNLOAD [''album'']], Inl AccessDenied)"
proof -
  let ?w = "album_world 1"
  have 1: "getDownloadInfo ?w owner (request None None None) =
     ([], Inl (BadRequestException ''assetIds, albumId, or userId is required''))"
    using C5_selection_and_access [of "request None None None" ?w owner]
    by (simp add: request_def truthy_def)
  have 2: "checked_once_first ?w ''owner'' ASSET_DOWNLOAD [''0'']
       (getDownloadInfo ?w owner (request (Some [''0'']) (Some ''album'') (Some ''owner'')))"
    using C5_selection_and_access [of "request (Some [''0'']) (Some ''album'') (Some ''owner'')" ?w owner]
    by (simp add: request_def owner_def)
  have 3: "checked_once_first ?w ''owner'' ALBUM_DOWNLOAD [''album'']
       (getDownloadInfo ?w owner (request None (Some ''album'') (Some ''owner'')))"
    using C5_selection_and_access [of "request None (Some ''album'') (Some ''owner'')" ?w owner]
    by (simp add: request_def owner_def)
  have 4: "checked_once_first ?w ''owner'' LIBRARY_DOWNLOAD [''owner'']
       (getDownloadInfo ?w owner (request None None (Some ''owner'')))"
    using C5_selection_and_access [of "request None None (Some ''owner'')" ?w owner]
    by (simp add: request_def owner_def truthy_def)
  have 5: "\<not> hasPermission ?w ''stranger'' ALBUM_DOWNLOAD [''album'']"
    by (simp add: album_world_def sample_world_def)
  have "checked_once_first ?w ''stranger'' ALBUM_DOWNLOAD [''album'']
       (getDownloadInfo ?w stranger (request None (Some ''album'') None))"
    using C5_selection_and_access [of "request None (Some ''album'') None" ?w stranger]
    by (simp add: request_def stranger_def)
  with 5 have 6: "getDownloadInfo ?w stranger (request None (Some ''album'') None) =
       ([RequirePermission ''stranger'' ALBUM_DOWNLOAD [''album'']], Inl AccessDenied)"
    by (cases "getDownloadInfo ?w stranger (request None (Some ''album'') None)")
      (auto simp: checked_once_first_def split: list.splits)
  show ?thesis using 1 2 3 4 5 6 by (intro conjI)
qed

section \<open>The claims about getMemoryLane\<close>

text \<open>
  Claim C6: for a year count \<open>N \<ge> 1\<close>, \<open>getMemoryLane\<close> issues exactly \<open>N\<close>
  lookups, one per \<open>yearsAgo\<close> in \<open>1..N\<close>, and returns the entries in ascending
  \<open>yearsAgo\<close> order without those whose asset list is empty, titled
  \<open>1 year since...\<close> for one year and \<open><k> years since...\<close> for \<open>k > 1\<close>.
\<close>

theorem C6_memory_lane:
  assumes "1 \<le> years dto"
  shows "fst (getMemoryLane w minusYears mapAsset authUser dto) =
           map (\<lambda>k. GetByDate (auth_id authUser) (minusYears (timestamp dto) k)) [1..years dto]
       \<and> length (fst (getMemoryLane w minusYears mapAsset authUser dto)) = nat (years dto)
       \<and> snd (getMemoryLane w minusYears mapAsset authUser dto) =
           Inr (filter (\<lambda>e. assets e \<noteq> [])
                  (map (spec_entry w minusYears mapAsset authUser (timestamp dto)) [1..years dto]))"
proof -
  let ?f = "onRequest w minusYears mapAsset authUser (timestamp dto)"
  have a: "map (snd \<circ> ?f) [1..years dto]
         = map (spec_entry w minusYears mapAsset authUser (timestamp dto)) [1..years dto]"
    by (simp add: onRequest_entry)
  have b: "map (fst \<circ> ?f) [1..years dto]
         = map (\<lambda>k. GetByDate (auth_id authUser) (minusYears (timestamp dto) k)) [1..years dto]"
    by (simp add: onRequest_def)
  show ?thesis
    unfolding getMemoryLane_def Let_def requests_loop_upto append_Nil fst_conv snd_conv map_map a b
    using assms by simp
qed

theorem C6_memory_lane_witness:
  "(1::int) \<le> years \<lparr>timestamp = 2023, years = 3\<rparr>
   \<and> fst (getMemoryLane lane_world years_before id' owner \<lparr>timestamp = 2023, years = 3\<rparr>) =
       [GetByDate ''owner'' 2022, GetByDate ''owner'' 2021, GetByDate ''owner'' 2020]
   \<and> snd (getMemoryLane lane_world years_before id' owner \<lparr>timestamp = 2023, years = 3\<rparr>) =
       Inr [\<lparr>title = ''1 year since...'', assets = [''x'']\<rparr>,
            \<lparr>title = ''3 years since...'', assets = [''z'']\<rparr>]"
proof -
  have u: "[1..(3::int)] = [1, 2, 3]" by (simp add: upto.simps)
  have n: "string_of_nat 3 = ''3''" "string_of_nat 2 = ''2''"
    by (subst string_of_nat.simps, simp add: digit_char_def)+
  show ?thesis
    using C6_memory_lane [of "\<lparr>timestamp = 2023, years = 3\<rparr>" lane_world years_before id' owner]
    by (simp add: u n spec_entry_def lane_world_def sample_world_def sample_asset_def owner_def
        years_before_def)
qed

text \<open>
  Claim C7, as stated, fails: with the year count 0 the loop issues no lookup and the
  operation returns the empty list; it raises no error.
\<close>

theorem C7_counterexample_zero_years:
  "getMemoryLane lane_world years_before id' owner \<lparr>timestamp = 2023, years = 0\<rparr> = ([], Inr [])
   \<and> \<not> isl (snd (getMemoryLane lane_world years_before id' owner \<lparr>timestamp = 2023, years = 0\<rparr>))"
  by (simp add: getMemoryLane_def Let_def requests_loop.simps)

text \<open>
  Claim C7, amended: for every non-positive year count \<open>getMemoryLane\<close> issues no lookup
  and returns the empty list.
\<close>

theorem C7_nonpositive_years:
  "years dto \<le> 0 \<Longrightarrow> getMemoryLane w minusYears mapAsset authUser dto = ([], Inr [])"
  by (simp add: getMemoryLane_def Let_def requests_loop.simps)

theorem C7_nonpositive_years_witness:
  "years \<lparr>timestamp = 2023, years = - 2\<rparr> \<le> 0
   \<and> getMemoryLane lane_world years_before id' owner \<lparr>timestamp = 2023, years = - 2\<rparr> = ([], Inr [])"
  using C7_nonpositive_years [of "\<lparr>timestamp = 2023, years = - 2\<rparr>" lane_world years_before id' owner]
  by simp

section \<open>The claims about downloadArchive\<close>

text \<open>
  Claim C8: the entry of each asset, in input order, is named \<open><displayName><ext>\<close>
  with \<open>ext\<close> taken from the original path, and \<open><displayName>+k<ext>\<close> when the same
  base name has occurred \<open>k \<ge> 1\<close> times among the earlier assets of this archive.
\<close>

theorem C8_entry_names:
  assumes "hasPermission w (auth_id authUser) ASSET_DOWNLOAD ids"
  shows "snd (downloadArchive w extname authUser ids) =
           Inr (map (\<lambda>i. (originalPath (getByIds w ids ! i), spec_entry_name extname (getByIds w ids) i))
                  [0..<length (getByIds w ids)])"
  using assms add_files_counted [of extname "getByIds w ids" "[]" "[]"]
  by (simp add: downloadArchive_def counted_empty)

theorem C8_entry_names_witness:
  "hasPermission same_name_world (auth_id owner) ASSET_DOWNLOAD [''1'', ''2'', ''3'']
   \<and> snd (downloadArchive same_name_world dot_suffix owner [''1'', ''2'', ''3'']) =
       Inr [(''upload/1.jpg'', ''IMG_0001.jpg''), (''upload/2.jpg'', ''IMG_0001+1.jpg''),
            (''upload/3.jpg'', ''IMG_0001+2.jpg'')]"
proof -
  have h: "hasPermission same_name_world (auth_id owner) ASSET_DOWNLOAD [''1'', ''2'', ''3'']"
    by (simp add: same_name_world_def sample_world_def owner_def)
  have g: "getByIds same_name_world [''1'', ''2'', ''3''] =
      [sample_asset ''1'' ''IMG_0001'' 1 None, sample_asset ''2'' ''IMG_0001'' 1 None,
       sample_asset ''3'' ''IMG_0001'' 1 None]"
    by (simp add: same_name_world_def sample_world_def)
  have u: "[0..<3] = [0, 1, 2]" by (simp add: upt_rec)
  have n: "string_of_nat (Suc (Suc 0)) = ''2''"
    by (subst string_of_nat.simps) (simp add: digit_char_def)
  have e: "dot_suffix ''upload/1.jpg'' = ''.jpg''" "dot_suffix ''upload/2.jpg'' = ''.jpg''"
      "dot_suffix ''upload/3.jpg'' = ''.jpg''"
    by (simp_all add: dot_suffix_def)
  show ?thesis
    using C8_entry_names [OF h, of dot_suffix] h
    by (simp add: g u n e string_of_nat_1 spec_entry_name_def base_name_def sample_asset_def Let_def)
qed

text \<open>
  Claim C9 at two assets named \<open>IMG_0001\<close> followed by one named \<open>IMG_0001+1\<close>, all
  with the extension \<open>.jpg\<close>: the second entry is renamed to \<open>IMG_0001+1.jpg\<close>, which
  is also the base name that the third entry keeps, so two entries of the archive carry the
  same name.
\<close>

theorem C9_generated_name_collides:
  "snd (downloadArchive reupload_world dot_suffix owner [''1'', ''2'', ''3'']) =
     Inr [(''upload/1.jpg'', ''IMG_0001.jpg''), (''upload/2.jpg'', ''IMG_0001+1.jpg''),
          (''upload/3.jpg'', ''IMG_0001+1.jpg'')]
   \<and> \<not> distinct (map snd [(''upload/1.jpg'', ''IMG_0001.jpg''), (''upload/2.jpg'', ''IMG_0001+1.jpg''),
          (''upload/3.jpg'', ''IMG_0001+1.jpg'')])"
  by (simp add: downloadArchive_def reupload_world_def sample_world_def owner_def add_file_def
      sample_asset_def dot_suffix_def string_of_nat_1 Let_def)

end
